theory Spec2Isabelle
  imports Complex_Main
begin

section \<open>The skip list of includes/skip\_list.hpp, over an explicit free store\<close>

text \<open>
  The container is a pointer structure: every node is allocated with \<open>new\<close>, holds a
  vector of raw forward pointers, and is released with \<open>delete\<close>.  The model keeps the
  free store explicit.  An address is a natural number, a pointer is an address or
  \<open>None\<close> for \<open>nullptr\<close>, and the store maps every live address to its node.
  \<open>new\<close> hands out the next address that was never used (\<open>brk\<close>), \<open>delete\<close> removes
  the node from the store.  Every operation that follows a pointer returns an \<open>option\<close>:
  \<open>None\<close> stands for undefined behaviour of the C++ program, that is, a dereference of
  \<open>nullptr\<close> or of a released node, a vector index out of range, or a loop that never
  ends.  An address is never handed out twice, so a pointer to a released node stays
  invalid for good and every use of it shows as \<open>None\<close>.
  Memory exhaustion (\<open>std::bad_alloc\<close>) is not modelled: the store is unbounded.
  Keys are of a linearly ordered type; \<open>operator<\<close> and \<open>operator==\<close> of \<open>KeyType\<close> are
  its order and its equality.
\<close>

type_synonym addr = nat
type_synonym ptr = "addr option"

text \<open>\<open>struct SkipNode { KeyType value; std::vector<SkipNode*> forward; }\<close>\<close>

record 'k SkipNode =
  val :: 'k
  forward :: "ptr list"

type_synonym 'k heap = "addr \<Rightarrow> 'k SkipNode option"

text \<open>
  The members of \<open>skip_list\<close> (named without the trailing underscore of the source),
  together with the free store they point into.  \<open>current_height\<close> is an \<open>int\<close>
  that the code keeps between 0 and 16, and
  \<open>element_count\<close> is a \<open>size_t\<close> that counts live nodes (it is decremented only
  behind the \<open>empty()\<close> guard of \<open>erase\<close>), so both are natural numbers here.
  \<open>random_engine\<close> with \<open>distribution_\<close> is the stream of the draws still to come:
  \<open>random_engine s 0\<close> is the next result of \<open>distribution_(random_engine_)\<close>.
\<close>

record 'k skip_list =
  store :: "'k heap"
  brk :: addr
  sentinel_head :: addr
  current_height :: nat
  element_count :: nat
  random_engine :: "nat \<Rightarrow> real"

definition MAX_HEIGHT :: nat where
  "MAX_HEIGHT = 16"

definition promotion_probability :: real where
  "promotion_probability = 1 / 2"

subsection \<open>Reading and writing through pointers\<close>

text \<open>\<open>a->forward[i]\<close>: undefined when \<open>a\<close> is not live or \<open>i\<close> is out of range.\<close>

definition fwd :: "'k heap \<Rightarrow> addr \<Rightarrow> nat \<Rightarrow> ptr option" where
  "fwd st a i =
     (case st a of
        None \<Rightarrow> None
      | Some n \<Rightarrow> if i < length (forward n) then Some (forward n ! i) else None)"

text \<open>\<open>a->forward[i] = p\<close>\<close>

definition set_fwd :: "'k heap \<Rightarrow> addr \<Rightarrow> nat \<Rightarrow> ptr \<Rightarrow> 'k heap option" where
  "set_fwd st a i p =
     (case st a of
        None \<Rightarrow> None
      | Some n \<Rightarrow>
          if i < length (forward n)
          then Some (st(a := Some (n\<lparr>forward := (forward n)[i := p]\<rparr>)))
          else None)"

text \<open>\<open>update_path[i] = p\<close> on the local vector \<open>update_path\<close>\<close>

definition set_slot :: "ptr list \<Rightarrow> nat \<Rightarrow> ptr \<Rightarrow> ptr list option" where
  "set_slot up i p = (if i < length up then Some (up[i := p]) else None)"

text \<open>\<open>update_path[i]->forward[i]\<close>\<close>

definition path_fwd :: "'k heap \<Rightarrow> ptr list \<Rightarrow> nat \<Rightarrow> (addr \<times> ptr) option" where
  "path_fwd st up i =
     (if i < length up
      then (case up ! i of
              None \<Rightarrow> None
            | Some u \<Rightarrow> (case fwd st u i of None \<Rightarrow> None | Some p \<Rightarrow> Some (u, p)))
      else None)"

subsection \<open>generateRandomHeight\<close>

text \<open>
  \<open>while (distribution(random_engine) < promotion_probability_ && height < MAX_HEIGHT)
  ++height;\<close>  The draw is the left operand of \<open>&&\<close>, so every test of the loop
  condition consumes one draw, also the test that ends the loop.
\<close>

function height_loop :: "(nat \<Rightarrow> real) \<Rightarrow> nat \<Rightarrow> nat \<times> (nat \<Rightarrow> real)" where
  "height_loop g height =
     (if g 0 < promotion_probability \<and> height < MAX_HEIGHT
      then height_loop (\<lambda>n. g (Suc n)) (Suc height)
      else (height, \<lambda>n. g (Suc n)))"
  by pat_completeness auto
termination
  by (relation "measure (\<lambda>(g, height). MAX_HEIGHT - height)") auto

declare height_loop.simps [simp del]

definition generateRandomHeight :: "(nat \<Rightarrow> real) \<Rightarrow> nat \<times> (nat \<Rightarrow> real)" where
  "generateRandomHeight g = height_loop g 1"

subsection \<open>Construction\<close>

text \<open>
  \<open>sentinel_head(new SkipNode(MAX_HEIGHT, KeyType{})), current_height(0),
  element_count_(0)\<close>; \<open>d\<close> is the value-initialised key \<open>KeyType{}\<close> and \<open>g\<close> the
  draws that the seeded engine will produce.
\<close>

definition SkipNode_new :: "nat \<Rightarrow> 'k \<Rightarrow> 'k SkipNode" where
  "SkipNode_new level v = \<lparr>val = v, forward = replicate level None\<rparr>"

definition skip_list_new :: "'k \<Rightarrow> (nat \<Rightarrow> real) \<Rightarrow> 'k skip_list" where
  "skip_list_new d g =
     \<lparr>store = (\<lambda>a. None)(0 := Some (SkipNode_new MAX_HEIGHT d)),
      brk = 1,
      sentinel_head = 0,
      current_height = 0,
      element_count = 0,
      random_engine = g\<rparr>"

subsection \<open>Search-path location\<close>

text \<open>
  \<open>while (current->forward[i] && current->forward[i]->value < value)
       current = current->forward[i];\<close>
\<close>

partial_function (option) advance :: "'k::linorder heap \<Rightarrow> 'k \<Rightarrow> nat \<Rightarrow> addr \<Rightarrow> addr option" where
  "advance st v i current =
     (case fwd st current i of
        None \<Rightarrow> None
      | Some None \<Rightarrow> Some current
      | Some (Some n) \<Rightarrow>
          (case st n of
             None \<Rightarrow> None
           | Some nd \<Rightarrow> if val nd < v then advance st v i n else Some current))"

declare advance.simps [code]

text \<open>
  \<open>for (int i = current_height_ - 1; i >= 0; --i) { while ...; update_path[i] = current; }\<close>
  The first argument is \<open>i + 1\<close>.
\<close>

fun find_path :: "'k::linorder heap \<Rightarrow> 'k \<Rightarrow> nat \<Rightarrow> addr \<Rightarrow> ptr list \<Rightarrow> (addr \<times> ptr list) option" where
  "find_path st v 0 current up = Some (current, up)"
| "find_path st v (Suc i) current up =
     (case advance st v i current of
        None \<Rightarrow> None
      | Some c \<Rightarrow>
          (case set_slot up i (Some c) of
             None \<Rightarrow> None
           | Some up' \<Rightarrow> find_path st v i c up'))"

text \<open>The same descent without the update path, as in \<open>contains\<close> and \<open>find\<close>.\<close>

fun descend :: "'k::linorder heap \<Rightarrow> 'k \<Rightarrow> nat \<Rightarrow> addr \<Rightarrow> addr option" where
  "descend st v 0 current = Some current"
| "descend st v (Suc i) current =
     (case advance st v i current of
        None \<Rightarrow> None
      | Some c \<Rightarrow> descend st v i c)"

text \<open>\<open>p && p->value == value\<close>\<close>

definition key_is :: "'k heap \<Rightarrow> ptr \<Rightarrow> 'k \<Rightarrow> bool option" where
  "key_is st p v =
     (case p of
        None \<Rightarrow> Some False
      | Some n \<Rightarrow> (case st n of None \<Rightarrow> None | Some nd \<Rightarrow> Some (val nd = v)))"

subsection \<open>insert\<close>

text \<open>\<open>for (int i = current_height_; i < newHeight; ++i) update_path[i] = sentinel_head_;\<close>
  The last argument lists the values that \<open>i\<close> takes.\<close>

fun raise_path :: "ptr list \<Rightarrow> addr \<Rightarrow> nat list \<Rightarrow> ptr list option" where
  "raise_path up h [] = Some up"
| "raise_path up h (i # is) =
     (case set_slot up i (Some h) of
        None \<Rightarrow> None
      | Some up' \<Rightarrow> raise_path up' h is)"

text \<open>\<open>for (int i = 0; i < newHeight; ++i) {
    newNode->forward[i] = update_path[i]->forward[i];
    update_path[i]->forward[i] = newNode; }\<close>\<close>

fun splice_node :: "'k heap \<Rightarrow> ptr list \<Rightarrow> addr \<Rightarrow> nat list \<Rightarrow> 'k heap option" where
  "splice_node st up newNode [] = Some st"
| "splice_node st up newNode (i # is) =
     (case path_fwd st up i of
        None \<Rightarrow> None
      | Some (u, p) \<Rightarrow>
          (case set_fwd st newNode i p of
             None \<Rightarrow> None
           | Some st1 \<Rightarrow>
               (case set_fwd st1 u i (Some newNode) of
                  None \<Rightarrow> None
                | Some st2 \<Rightarrow> splice_node st2 up newNode is)))"

definition insert_sl :: "'k::linorder skip_list \<Rightarrow> 'k \<Rightarrow> (bool \<times> 'k skip_list) option" where
  "insert_sl s v =
     (case find_path (store s) v (current_height s) (sentinel_head s)
             (replicate MAX_HEIGHT None) of
        None \<Rightarrow> None
      | Some (current, update_path) \<Rightarrow>
          (case fwd (store s) current 0 of
             None \<Rightarrow> None
           | Some nxt \<Rightarrow>
               (case key_is (store s) nxt v of
                  None \<Rightarrow> None
                | Some True \<Rightarrow> Some (False, s)
                | Some False \<Rightarrow>
                    (case generateRandomHeight (random_engine s) of
                       (newHeight, g) \<Rightarrow>
                         (case (if newHeight > current_height s
                                then raise_path update_path (sentinel_head s)
                                       [current_height s ..< newHeight]
                                else Some update_path) of
                            None \<Rightarrow> None
                          | Some up \<Rightarrow>
                              (case splice_node
                                      ((store s)(brk s := Some (SkipNode_new newHeight v)))
                                      up (brk s) [0 ..< newHeight] of
                                 None \<Rightarrow> None
                               | Some st \<Rightarrow>
                                   Some (True,
                                     s\<lparr>store := st,
                                       brk := Suc (brk s),
                                       current_height :=
                                         (if newHeight > current_height s then newHeight
                                          else current_height s),
                                       element_count := Suc (element_count s),
                                       random_engine := g\<rparr>)))))))"

subsection \<open>erase\<close>

text \<open>\<open>for (int i = 0; i < current_height_; ++i) {
    if (update_path[i]->forward[i] != current) break;
    update_path[i]->forward[i] = current->forward[i]; }\<close>\<close>

fun unlink :: "'k heap \<Rightarrow> ptr list \<Rightarrow> addr \<Rightarrow> nat list \<Rightarrow> 'k heap option" where
  "unlink st up current [] = Some st"
| "unlink st up current (i # is) =
     (case path_fwd st up i of
        None \<Rightarrow> None
      | Some (u, p) \<Rightarrow>
          if p \<noteq> Some current then Some st
          else (case fwd st current i of
                  None \<Rightarrow> None
                | Some q \<Rightarrow>
                    (case set_fwd st u i q of
                       None \<Rightarrow> None
                     | Some st' \<Rightarrow> unlink st' up current is)))"

text \<open>\<open>while (current_height_ > 0 && sentinel_head_->forward[current_height_ - 1] == nullptr)
    --current_height_;\<close>  The last argument is \<open>current_height_\<close>, the result its final value.\<close>

fun trim :: "'k heap \<Rightarrow> addr \<Rightarrow> nat \<Rightarrow> nat option" where
  "trim st h 0 = Some 0"
| "trim st h (Suc n) =
     (case fwd st h n of
        None \<Rightarrow> None
      | Some None \<Rightarrow> trim st h n
      | Some (Some a) \<Rightarrow> Some (Suc n))"

definition size_sl :: "'k skip_list \<Rightarrow> nat" where
  "size_sl s = element_count s"

definition empty_sl :: "'k skip_list \<Rightarrow> bool" where
  "empty_sl s = (element_count s = 0)"

definition erase :: "'k::linorder skip_list \<Rightarrow> 'k \<Rightarrow> (bool \<times> 'k skip_list) option" where
  "erase s v =
     (if empty_sl s then Some (False, s)
      else
        (case find_path (store s) v (current_height s) (sentinel_head s)
                (replicate MAX_HEIGHT None) of
           None \<Rightarrow> None
         | Some (c, update_path) \<Rightarrow>
             (case fwd (store s) c 0 of
                None \<Rightarrow> None
              | Some None \<Rightarrow> Some (False, s)
              | Some (Some current) \<Rightarrow>
                  (case store s current of
                     None \<Rightarrow> None
                   | Some nd \<Rightarrow>
                       if val nd \<noteq> v then Some (False, s)
                       else
                         (case unlink (store s) update_path current
                                 [0 ..< current_height s] of
                            None \<Rightarrow> None
                          | Some st \<Rightarrow>
                              (case trim (st(current := None)) (sentinel_head s)
                                      (current_height s) of
                                 None \<Rightarrow> None
                               | Some h \<Rightarrow>
                                   Some (True,
                                     s\<lparr>store := st(current := None),
                                       current_height := h,
                                       element_count := element_count s - 1\<rparr>)))))))"

subsection \<open>contains and find\<close>

type_synonym iterator = ptr

definition end_sl :: iterator where
  "end_sl = None"

definition begin_sl :: "'k skip_list \<Rightarrow> iterator option" where
  "begin_sl s = fwd (store s) (sentinel_head s) 0"

definition contains :: "'k::linorder skip_list \<Rightarrow> 'k \<Rightarrow> bool option" where
  "contains s v =
     (case descend (store s) v (current_height s) (sentinel_head s) of
        None \<Rightarrow> None
      | Some current \<Rightarrow>
          (case fwd (store s) current 0 of
             None \<Rightarrow> None
           | Some nxt \<Rightarrow> key_is (store s) nxt v))"

definition find_sl :: "'k::linorder skip_list \<Rightarrow> 'k \<Rightarrow> iterator option" where
  "find_sl s v =
     (case descend (store s) v (current_height s) (sentinel_head s) of
        None \<Rightarrow> None
      | Some current \<Rightarrow>
          (case fwd (store s) current 0 of
             None \<Rightarrow> None
           | Some nxt \<Rightarrow>
               (case key_is (store s) nxt v of
                  None \<Rightarrow> None
                | Some True \<Rightarrow> Some nxt
                | Some False \<Rightarrow> Some end_sl)))"

subsection \<open>The iterator\<close>

text \<open>\<open>operator*\<close>: undefined on the end position and on a released node.\<close>

definition deref :: "'k heap \<Rightarrow> iterator \<Rightarrow> 'k option" where
  "deref st it =
     (case it of
        None \<Rightarrow> None
      | Some a \<Rightarrow> (case st a of None \<Rightarrow> None | Some nd \<Rightarrow> Some (val nd)))"

text \<open>Prefix \<open>operator++\<close>:
  \<open>if (current_node_) current_node_ = current_node_->forward[0]; return *this;\<close>\<close>

definition pre_incr :: "'k heap \<Rightarrow> iterator \<Rightarrow> iterator option" where
  "pre_incr st it = (case it of None \<Rightarrow> Some None | Some a \<Rightarrow> fwd st a 0)"

text \<open>Postfix \<open>operator++\<close>: \<open>iterator temp = *this; ++(*this); return temp;\<close>
  The result is the returned copy and the iterator after the call.\<close>

definition post_incr :: "'k heap \<Rightarrow> iterator \<Rightarrow> (iterator \<times> iterator) option" where
  "post_incr st it =
     (case pre_incr st it of None \<Rightarrow> None | Some it' \<Rightarrow> Some (it, it'))"

text \<open>\<open>for (auto it = first; it != end(); ++it) out.push_back(*it);\<close>\<close>

partial_function (option) traverse :: "'k heap \<Rightarrow> iterator \<Rightarrow> 'k list option" where
  "traverse st it =
     (if it = end_sl then Some []
      else (case deref st it of
              None \<Rightarrow> None
            | Some k \<Rightarrow>
                (case pre_incr st it of
                   None \<Rightarrow> None
                 | Some it' \<Rightarrow> Option.bind (traverse st it') (\<lambda>ks. Some (k # ks)))))"

declare traverse.simps [code]

definition to_list :: "'k skip_list \<Rightarrow> 'k list option" where
  "to_list s =
     (case begin_sl s of None \<Rightarrow> None | Some it \<Rightarrow> traverse (store s) it)"

subsection \<open>clear\<close>

text \<open>\<open>while (current) { SkipNode* next = current->forward[0]; delete current;
    current = next; }\<close>\<close>

partial_function (option) release_chain :: "'k heap \<Rightarrow> ptr \<Rightarrow> 'k heap option" where
  "release_chain st current =
     (case current of
        None \<Rightarrow> Some st
      | Some c \<Rightarrow>
          (case fwd st c 0 of
             None \<Rightarrow> None
           | Some next \<Rightarrow> release_chain (st(c := None)) next))"

declare release_chain.simps [code]

text \<open>\<open>std::fill(h->forward.begin(), h->forward.end(), nullptr)\<close>\<close>

definition fill_null :: "'k heap \<Rightarrow> addr \<Rightarrow> 'k heap option" where
  "fill_null st h =
     (case st h of
        None \<Rightarrow> None
      | Some n \<Rightarrow> Some (st(h := Some (n\<lparr>forward := map (\<lambda>p. None) (forward n)\<rparr>))))"

definition clear :: "'k skip_list \<Rightarrow> 'k skip_list option" where
  "clear s =
     (case fwd (store s) (sentinel_head s) 0 of
        None \<Rightarrow> None
      | Some first \<Rightarrow>
          (case release_chain (store s) first of
             None \<Rightarrow> None
           | Some st \<Rightarrow>
               (case fill_null st (sentinel_head s) of
                  None \<Rightarrow> None
                | Some st' \<Rightarrow>
                    Some (s\<lparr>store := st', current_height := 0, element_count := 0\<rparr>))))"

subsection \<open>The chain of a level\<close>

text \<open>The addresses met from pointer \<open>p\<close> by following \<open>forward[i]\<close> up to \<open>nullptr\<close>,
  and the chain of level \<open>i\<close> of a container, which starts at the sentinel's link.\<close>

partial_function (option) chain :: "'k heap \<Rightarrow> nat \<Rightarrow> ptr \<Rightarrow> addr list option" where
  "chain st i p =
     (case p of
        None \<Rightarrow> Some []
      | Some a \<Rightarrow>
          (case fwd st a i of
             None \<Rightarrow> None
           | Some q \<Rightarrow> Option.bind (chain st i q) (\<lambda>as. Some (a # as))))"

declare chain.simps [code]

definition level_chain :: "'k skip_list \<Rightarrow> nat \<Rightarrow> addr list option" where
  "level_chain s i =
     (case fwd (store s) (sentinel_head s) i of
        None \<Rightarrow> None
      | Some p \<Rightarrow> chain (store s) i p)"

text \<open>The height of a node is the size of its \<open>forward\<close> vector.\<close>

definition node_height :: "'k heap \<Rightarrow> addr \<Rightarrow> nat" where
  "node_height st a = (case st a of None \<Rightarrow> 0 | Some n \<Rightarrow> length (forward n))"

subsection \<open>Sequences of operations on a fresh container\<close>

datatype 'k op = Insert 'k | Erase 'k | Clear

fun step :: "'k::linorder skip_list \<Rightarrow> 'k op \<Rightarrow> 'k skip_list option" where
  "step s (Insert v) = map_option snd (insert_sl s v)"
| "step s (Erase v) = map_option snd (erase s v)"
| "step s Clear = clear s"

fun run :: "'k::linorder skip_list \<Rightarrow> 'k op list \<Rightarrow> 'k skip_list option" where
  "run s [] = Some s"
| "run s (x # xs) = (case step s x of None \<Rightarrow> None | Some s' \<Rightarrow> run s' xs)"

text \<open>The keys that are present after a sequence of operations: inserted and not
  erased or cleared since.\<close>

fun keys_after :: "'k set \<Rightarrow> 'k op list \<Rightarrow> 'k set" where
  "keys_after K [] = K"
| "keys_after K (Insert v # xs) = keys_after (K \<union> {v}) xs"
| "keys_after K (Erase v # xs) = keys_after (K - {v}) xs"
| "keys_after K (Clear # xs) = keys_after {} xs"

section \<open>The abstract view of a well-formed container\<close>

text \<open>
  A well-formed skip list is described by the list of its real nodes in level-0 order:
  for each node its address, its key and its height.  Everything else is determined by
  that list: the forward pointer at level \<open>i\<close> of a node is the first later node that
  is taller than \<open>i\<close>.
\<close>

datatype 'k cell = Cell (addr_of: addr) (key_of: 'k) (hgt: nat)

fun nxt :: "nat \<Rightarrow> 'k cell list \<Rightarrow> ptr" where
  "nxt i [] = None"
| "nxt i (n # ns) = (if i < hgt n then Some (addr_of n) else nxt i ns)"

definition node_of :: "'k \<Rightarrow> nat \<Rightarrow> 'k cell list \<Rightarrow> 'k SkipNode" where
  "node_of k h ns = \<lparr>val = k, forward = map (\<lambda>i. nxt i ns) [0 ..< h]\<rparr>"

fun linked :: "'k heap \<Rightarrow> 'k cell list \<Rightarrow> bool" where
  "linked st [] = True"
| "linked st (n # ns) =
     (st (addr_of n) = Some (node_of (key_of n) (hgt n) ns) \<and> linked st ns)"

fun maxh :: "'k cell list \<Rightarrow> nat" where
  "maxh [] = 0"
| "maxh (n # ns) = max (hgt n) (maxh ns)"

definition inv :: "'k::linorder skip_list \<Rightarrow> 'k cell list \<Rightarrow> bool" where
  "inv s ns \<longleftrightarrow>
     (\<exists>d. store s (sentinel_head s) = Some (node_of d MAX_HEIGHT ns)) \<and>
     linked (store s) ns \<and>
     distinct (sentinel_head s # map addr_of ns) \<and>
     dom (store s) = set (sentinel_head s # map addr_of ns) \<and>
     sorted_wrt (<) (map key_of ns) \<and>
     (\<forall>n \<in> set ns. 1 \<le> hgt n \<and> hgt n \<le> MAX_HEIGHT \<and> addr_of n < brk s) \<and>
     sentinel_head s < brk s \<and>
     current_height s = maxh ns \<and>
     element_count s = length ns"

text \<open>The last node of a list that is taller than \<open>i\<close>, or \<open>c\<close> when there is none,
  and the nodes that come after it.\<close>

fun lastl :: "nat \<Rightarrow> 'k cell list \<Rightarrow> addr \<Rightarrow> addr" where
  "lastl i [] c = c"
| "lastl i (n # ns) c = lastl i ns (if i < hgt n then addr_of n else c)"

fun aft :: "nat \<Rightarrow> 'k cell list \<Rightarrow> 'k cell list" where
  "aft i [] = []"
| "aft i (n # ns) =
     (if nxt i ns \<noteq> None then aft i ns else if i < hgt n then ns else n # ns)"

text \<open>The keys below a value, and the rest: the two parts of the list that a search for
  the value separates.\<close>

definition lower :: "'k::linorder \<Rightarrow> 'k cell list \<Rightarrow> 'k cell list" where
  "lower v ns = takeWhile (\<lambda>n. key_of n < v) ns"

definition upper :: "'k::linorder \<Rightarrow> 'k cell list \<Rightarrow> 'k cell list" where
  "upper v ns = dropWhile (\<lambda>n. key_of n < v) ns"

text \<open>
  A batch of pointer writes: \<open>F a i = Some p\<close> says that \<open>a->forward[i]\<close> has been
  overwritten with \<open>p\<close>.  The loops of \<open>insert\<close> and \<open>erase\<close> write each slot at most
  once, so their effect on the store is such a batch.
\<close>

definition overlay :: "'k heap \<Rightarrow> (addr \<Rightarrow> nat \<Rightarrow> ptr option) \<Rightarrow> 'k heap" where
  "overlay st F =
     (\<lambda>a. case st a of
            None \<Rightarrow> None
          | Some n \<Rightarrow>
              Some (n\<lparr>forward :=
                map (\<lambda>i. case F a i of None \<Rightarrow> forward n ! i | Some p \<Rightarrow> p)
                  [0 ..< length (forward n)]\<rparr>))"

definition unlink_map :: "ptr list \<Rightarrow> (nat \<Rightarrow> ptr) \<Rightarrow> nat \<Rightarrow> addr \<Rightarrow> nat \<Rightarrow> ptr option" where
  "unlink_map up f m = (\<lambda>a i. if i < m \<and> up ! i = Some a then Some (f i) else None)"

definition splice_map :: "ptr list \<Rightarrow> addr \<Rightarrow> (nat \<Rightarrow> ptr) \<Rightarrow> nat \<Rightarrow> addr \<Rightarrow> nat \<Rightarrow> ptr option" where
  "splice_map up new g m =
     (\<lambda>a i. if i < m
            then (if a = new then Some (g i)
                  else if up ! i = Some a then Some (Some new) else None)
            else None)"

section \<open>The unlink loop as the specification words it\<close>

text \<open>
  The specification asks to ``unlink for levels 0..node\_height-1'': the same body as
  \<open>unlink\<close> with no test and no \<open>break\<close>, to be run over the levels of the removed
  node.  It is compared with the loop of the source below.
\<close>

fun unlink_all :: "'k heap \<Rightarrow> ptr list \<Rightarrow> addr \<Rightarrow> nat list \<Rightarrow> 'k heap option" where
  "unlink_all st up current [] = Some st"
| "unlink_all st up current (i # is) =
     (case path_fwd st up i of
        None \<Rightarrow> None
      | Some (u, p) \<Rightarrow>
          (case fwd st current i of
             None \<Rightarrow> None
           | Some q \<Rightarrow>
               (case set_fwd st u i q of
                  None \<Rightarrow> None
                | Some st' \<Rightarrow> unlink_all st' up current is)))"

section \<open>A stream of draws for the examples\<close>

text \<open>Draws 0 and 3 promote, all others do not: the first three nodes inserted get the
  heights 2, 1 and 2.\<close>

definition example_draws :: "nat \<Rightarrow> real" where
  "example_draws n = (if n = 0 \<or> n = 3 then 1 / 4 else 3 / 4)"

section \<open>Properties of the abstract view\<close>

lemma nxt_append: "nxt i (xs @ ys) = (case nxt i xs of None \<Rightarrow> nxt i ys | Some a \<Rightarrow> Some a)"
  by (induction xs) auto

lemma nxt_None_iff: "nxt i ns = None \<longleftrightarrow> (\<forall>n \<in> set ns. hgt n \<le> i)"
  by (induction ns) auto

lemma nxt_None_maxh: "nxt i ns = None \<longleftrightarrow> maxh ns \<le> i"
  by (induction ns) auto

lemma nxt_Some_mem: "nxt i ns = Some a \<Longrightarrow> \<exists>n \<in> set ns. addr_of n = a \<and> i < hgt n"
  by (induction ns) (auto split: if_splits)

lemma hgt_le_maxh: "n \<in> set ns \<Longrightarrow> hgt n \<le> maxh ns"
  by (induction ns) auto

lemma maxh_append: "maxh (xs @ ys) = max (maxh xs) (maxh ys)"
  by (induction xs) auto

lemma linked_appendD: "linked st (xs @ ys) \<Longrightarrow> linked st ys"
  by (induction xs) auto

lemma linked_mid:
  "linked st (p @ n # q) \<Longrightarrow> st (addr_of n) = Some (node_of (key_of n) (hgt n) q)"
  by (induction p) auto

lemma linked_mem: "linked st ns \<Longrightarrow> n \<in> set ns \<Longrightarrow> \<exists>q. st (addr_of n) = Some (node_of (key_of n) (hgt n) q)"
  by (induction ns) auto

lemma linked_upd: "a \<notin> addr_of ` set ns \<Longrightarrow> linked (st(a := x)) ns = linked st ns"
  by (induction ns) auto

lemma linked_cong: "(\<And>n. n \<in> set ns \<Longrightarrow> st' (addr_of n) = st (addr_of n)) \<Longrightarrow> linked st' ns = linked st ns"
  by (induction ns) auto

lemma fwd_node_of: "st a = Some (node_of k h ns) \<Longrightarrow> i < h \<Longrightarrow> fwd st a i = Some (nxt i ns)"
  by (simp add: fwd_def node_of_def)

lemma fwd_node_of_out: "st a = Some (node_of k h ns) \<Longrightarrow> \<not> i < h \<Longrightarrow> fwd st a i = None"
  by (simp add: fwd_def node_of_def)

subsection \<open>The inner loop of the search\<close>

lemma advance_spec:
  fixes v :: "'k::linorder"
  assumes "linked st (mid @ post)"
    and "\<forall>n \<in> set mid. key_of n < v"
    and "\<forall>n \<in> set post. \<not> key_of n < v"
    and "fwd st cur i = Some (nxt i (mid @ post))"
  shows "advance st v i cur = Some (lastl i mid cur)"
  using assms
proof (induction mid arbitrary: cur)
  case Nil
  show ?case
  proof (cases "nxt i post")
    case None
    with Nil show ?thesis by (subst advance.simps) simp
  next
    case (Some a)
    then obtain n where n: "n \<in> set post" "addr_of n = a" using nxt_Some_mem by blast
    with Nil(1) obtain q where "st a = Some (node_of (key_of n) (hgt n) q)"
      using linked_mem by fastforce
    with Nil Some n show ?thesis
      by (subst advance.simps) (simp add: node_of_def)
  qed
next
  case (Cons n mid)
  show ?case
  proof (cases "i < hgt n")
    case True
    from Cons.prems(1) have sn: "st (addr_of n) = Some (node_of (key_of n) (hgt n) (mid @ post))"
      and l: "linked st (mid @ post)" by simp_all
    have f: "fwd st (addr_of n) i = Some (nxt i (mid @ post))"
      using sn True by (rule fwd_node_of)
    have "advance st v i (addr_of n) = Some (lastl i mid (addr_of n))"
      using Cons.IH[OF l _ Cons.prems(3) f] Cons.prems(2) by simp
    moreover have "fwd st cur i = Some (Some (addr_of n))" using Cons.prems(4) True by simp
    moreover have "key_of n < v" using Cons.prems(2) by simp
    ultimately show ?thesis using sn True
      by (subst advance.simps) (simp add: node_of_def)
  next
    case False
    from Cons.prems(1) have l: "linked st (mid @ post)" by simp
    have f: "fwd st cur i = Some (nxt i (mid @ post))" using Cons.prems(4) False by simp
    show ?thesis using Cons.IH[OF l _ Cons.prems(3) f] Cons.prems(2) False by simp
  qed
qed

lemma lastl_no: "nxt i ns = None \<Longrightarrow> lastl i ns c = c"
  by (induction ns arbitrary: c) (auto split: if_splits)

lemma lastl_indep: "nxt i ns \<noteq> None \<Longrightarrow> lastl i ns c = lastl i ns c'"
proof (induction ns arbitrary: c c')
  case Nil
  then show ?case by simp
next
  case (Cons n ns)
  show ?case
  proof (cases "nxt i ns")
    case None
    with Cons.prems show ?thesis by (auto simp: lastl_no split: if_splits)
  next
    case (Some a)
    then show ?thesis using Cons.IH by simp
  qed
qed

lemma lastl_mem: "lastl i ns c = c \<or> lastl i ns c \<in> addr_of ` set ns"
proof (induction ns arbitrary: c)
  case Nil
  then show ?case by simp
next
  case (Cons n ns)
  show ?case using Cons.IH[of "if i < hgt n then addr_of n else c"]
    by (auto split: if_splits)
qed

lemma aft_no: "nxt i ns = None \<Longrightarrow> aft i ns = ns"
  by (induction ns) (auto split: if_splits)

lemma aft_nxt: "nxt i (aft i ns) = None"
  by (induction ns) auto

lemma aft_decomp:
  "nxt i ns \<noteq> None \<Longrightarrow> \<exists>p n. ns = p @ n # aft i ns \<and> addr_of n = lastl i ns c \<and> i < hgt n"
proof (induction ns arbitrary: c)
  case Nil
  then show ?case by simp
next
  case (Cons m ns)
  show ?case
  proof (cases "nxt i ns")
    case None
    with Cons.prems have h: "i < hgt m" by (auto split: if_splits)
    have "m # ns = [] @ m # aft i (m # ns)" using None h by simp
    moreover have "addr_of m = lastl i (m # ns) c" using None h by (simp add: lastl_no)
    ultimately show ?thesis using h by blast
  next
    case (Some a)
    then obtain p n where "ns = p @ n # aft i ns" "addr_of n = lastl i ns (if i < hgt m then addr_of m else c)" "i < hgt n"
      using Cons.IH by fastforce
    then have "m # ns = (m # p) @ n # aft i (m # ns)" "addr_of n = lastl i (m # ns) c"
      using Some by simp_all
    then show ?thesis using \<open>i < hgt n\<close> by blast
  qed
qed

lemma aft_suffix: "\<exists>p. ns = p @ aft i ns"
proof (cases "nxt i ns")
  case None
  then show ?thesis by (simp add: aft_no)
next
  case (Some a)
  then obtain p n where "ns = p @ n # aft i ns" using aft_decomp[of i ns] by fastforce
  then have "ns = (p @ [n]) @ aft i ns" by simp
  then show ?thesis by blast
qed

lemma aft_subset: "set (aft i ns) \<subseteq> set ns"
  using aft_suffix[of ns i] by (metis Un_upper2 set_append)

lemma lastl_aft: "i \<le> j \<Longrightarrow> lastl i (aft j ns) (lastl j ns c) = lastl i ns c"
proof (induction ns arbitrary: c)
  case Nil
  then show ?case by simp
next
  case (Cons n ns)
  show ?case
  proof (cases "nxt j ns")
    case None
    show ?thesis
    proof (cases "j < hgt n")
      case True
      then show ?thesis using None Cons.prems by (simp add: lastl_no)
    next
      case False
      then show ?thesis using None by (simp add: lastl_no)
    qed
  next
    case (Some a)
    then obtain m where "m \<in> set ns" "j < hgt m" using nxt_Some_mem by blast
    then have "\<not> hgt m \<le> i" using Cons.prems by simp
    then have "nxt i ns \<noteq> None" using \<open>m \<in> set ns\<close> unfolding nxt_None_iff by blast
    then have "lastl i ns (if j < hgt n then addr_of n else c) = lastl i ns (if i < hgt n then addr_of n else c)"
      by (rule lastl_indep)
    then show ?thesis using Some Cons.IH[OF Cons.prems] by simp
  qed
qed

lemma fwd_lastl:
  assumes hd: "st h = Some (node_of d MAX_HEIGHT (pre @ post))"
    and l: "linked st (pre @ post)"
    and ij: "i \<le> j" and i: "i < MAX_HEIGHT"
  shows "fwd st (lastl j pre h) i = Some (nxt i (aft j pre @ post))"
proof (cases "nxt j pre")
  case None
  then show ?thesis using hd i by (simp add: lastl_no aft_no fwd_node_of)
next
  case (Some a)
  then obtain p n where d: "pre = p @ n # aft j pre" "addr_of n = lastl j pre h" "j < hgt n"
    using aft_decomp[of j pre h] by fastforce
  then have "pre @ post = p @ n # (aft j pre @ post)" by simp
  then have "st (addr_of n) = Some (node_of (key_of n) (hgt n) (aft j pre @ post))"
    using l linked_mid by metis
  then show ?thesis using d ij by (simp add: fwd_node_of)
qed

lemma find_path_spec:
  fixes v :: "'k::linorder"
  assumes hd: "st h = Some (node_of d MAX_HEIGHT (pre @ post))"
    and l: "linked st (pre @ post)"
    and lt: "\<forall>n \<in> set pre. key_of n < v"
    and ge: "\<forall>n \<in> set post. \<not> key_of n < v"
    and j: "j \<le> MAX_HEIGHT" and len: "length up = MAX_HEIGHT"
  shows "\<exists>up'. find_path st v j (lastl j pre h) up = Some (lastl 0 pre h, up') \<and>
           length up' = MAX_HEIGHT \<and>
           (\<forall>i<j. up' ! i = Some (lastl i pre h)) \<and>
           (\<forall>i\<ge>j. up' ! i = up ! i)"
  using j len
proof (induction j arbitrary: up)
  case 0
  then show ?case by simp
next
  case (Suc i)
  let ?mid = "aft (Suc i) pre"
  obtain p where p: "pre = p @ ?mid" using aft_suffix by blast
  then have "pre @ post = p @ (?mid @ post)" by simp
  then have l': "linked st (?mid @ post)" using l linked_appendD by metis
  have lt': "\<forall>n \<in> set ?mid. key_of n < v" using lt aft_subset by blast
  have f: "fwd st (lastl (Suc i) pre h) i = Some (nxt i (?mid @ post))"
    using fwd_lastl[OF hd l, of i "Suc i"] Suc.prems by simp
  have adv: "advance st v i (lastl (Suc i) pre h) = Some (lastl i pre h)"
    using advance_spec[OF l' lt' ge f] by (simp add: lastl_aft)
  let ?up = "up[i := Some (lastl i pre h)]"
  have ss: "set_slot up i (Some (lastl i pre h)) = Some ?up"
    using Suc.prems by (simp add: set_slot_def)
  obtain up' where u: "find_path st v i (lastl i pre h) ?up = Some (lastl 0 pre h, up')"
      "length up' = MAX_HEIGHT" "\<forall>k<i. up' ! k = Some (lastl k pre h)" "\<forall>k\<ge>i. up' ! k = ?up ! k"
    using Suc.IH[of ?up] Suc.prems by auto
  have "find_path st v (Suc i) (lastl (Suc i) pre h) up = Some (lastl 0 pre h, up')"
    using adv ss u(1) by simp
  moreover have "\<forall>k<Suc i. up' ! k = Some (lastl k pre h)"
    using u(3,4) Suc.prems by (auto simp: less_Suc_eq)
  moreover have "\<forall>k\<ge>Suc i. up' ! k = up ! k" using u(4) by auto
  ultimately show ?case using u(2) by blast
qed

lemma descend_find_path:
  "j \<le> length up \<Longrightarrow> descend st v j c = map_option fst (find_path st v j c up)"
proof (induction j arbitrary: c up)
  case 0
  then show ?case by simp
next
  case (Suc j)
  then show ?case by (auto simp: set_slot_def split: option.splits)
qed

section \<open>Batches of pointer writes and the loops of insert and erase\<close>

lemma overlay_empty: "overlay st (\<lambda>a i. None) = st"
  by (rule ext) (simp add: overlay_def map_nth split: option.splits)

lemma overlay_same: "\<forall>i. F a i = None \<Longrightarrow> overlay st F a = st a"
  by (simp add: overlay_def map_nth split: option.splits)

lemma dom_overlay: "dom (overlay st F) = dom st"
  by (auto simp: overlay_def dom_def split: option.splits)

lemma overlay_None: "overlay st F a = None \<longleftrightarrow> st a = None"
  by (auto simp: overlay_def split: option.splits)

lemma fwd_overlay:
  "fwd (overlay st F) a i =
     (case fwd st a i of
        None \<Rightarrow> None
      | Some q \<Rightarrow> Some (case F a i of None \<Rightarrow> q | Some p \<Rightarrow> p))"
  by (cases "st a") (auto simp: fwd_def overlay_def cong: option.case_cong)

lemma set_fwd_overlay:
  assumes "fwd st u m = Some q"
  shows "set_fwd (overlay st F) u m p =
           Some (overlay st (\<lambda>a i. if a = u \<and> i = m then Some p else F a i))"
proof -
  obtain n where n: "st u = Some n" "m < length (forward n)"
    using assms by (auto simp: fwd_def split: option.splits if_splits)
  have "(overlay st F)(u := Some (the (overlay st F u)
            \<lparr>forward := (forward (the (overlay st F u)))[m := p]\<rparr>)) =
        overlay st (\<lambda>a i. if a = u \<and> i = m then Some p else F a i)"
  proof (rule ext)
    fix a
    show "((overlay st F)(u := Some (the (overlay st F u)
            \<lparr>forward := (forward (the (overlay st F u)))[m := p]\<rparr>))) a =
        overlay st (\<lambda>a i. if a = u \<and> i = m then Some p else F a i) a"
    proof (cases "a = u")
      case True
      have "(map (\<lambda>i. case F u i of None \<Rightarrow> forward n ! i | Some p \<Rightarrow> p) [0..<length (forward n)])[m := p]
          = map (\<lambda>i. case (if i = m then Some p else F u i) of None \<Rightarrow> forward n ! i | Some p \<Rightarrow> p) [0..<length (forward n)]"
      proof (rule nth_equalityI)
        show "length ((map (\<lambda>i. case F u i of None \<Rightarrow> forward n ! i | Some p \<Rightarrow> p) [0..<length (forward n)])[m := p])
            = length (map (\<lambda>i. case (if i = m then Some p else F u i) of None \<Rightarrow> forward n ! i | Some p \<Rightarrow> p) [0..<length (forward n)])"
          by simp
      next
        fix i
        assume "i < length ((map (\<lambda>i. case F u i of None \<Rightarrow> forward n ! i | Some p \<Rightarrow> p) [0..<length (forward n)])[m := p])"
        then have i: "i < length (forward n)" by simp
        show "(map (\<lambda>i. case F u i of None \<Rightarrow> forward n ! i | Some p \<Rightarrow> p) [0..<length (forward n)])[m := p] ! i
            = map (\<lambda>i. case (if i = m then Some p else F u i) of None \<Rightarrow> forward n ! i | Some p \<Rightarrow> p) [0..<length (forward n)] ! i"
          using i by (cases "i = m") simp_all
      qed
      then show ?thesis using True n by (simp add: overlay_def)
    next
      case False
      then show ?thesis by (cases "st a") (simp_all add: overlay_def)
    qed
  qed
  then show ?thesis using n by (simp add: set_fwd_def overlay_def)
qed

lemma overlay_node_of:
  assumes "st a = Some (node_of k h rest)"
    and "\<forall>i<h. (case F a i of None \<Rightarrow> nxt i rest | Some p \<Rightarrow> p) = nxt i rest'"
  shows "overlay st F a = Some (node_of k h rest')"
  using assms by (auto simp: overlay_def node_of_def cong: option.case_cong)

lemma raise_path_spec:
  "b \<le> length up \<Longrightarrow>
     \<exists>up'. raise_path up h [a ..< b] = Some up' \<and> length up' = length up \<and>
       (\<forall>i. up' ! i = (if a \<le> i \<and> i < b then Some h else up ! i))"
proof (induction "b - a" arbitrary: a up)
  case 0
  then show ?case by auto
next
  case (Suc d)
  then have ab: "a < b" and d: "d = b - Suc a" by simp_all
  let ?up = "up[a := Some h]"
  have ss: "set_slot up a (Some h) = Some ?up" using ab Suc.prems by (simp add: set_slot_def)
  obtain up' where u: "raise_path ?up h [Suc a ..< b] = Some up'" "length up' = length ?up"
      "\<forall>i. up' ! i = (if Suc a \<le> i \<and> i < b then Some h else ?up ! i)"
    using Suc.hyps(1)[OF d, of ?up] Suc.prems by auto
  have "raise_path up h [a ..< b] = Some up'"
    using ab ss u(1) by (simp add: upt_conv_Cons)
  moreover have "\<forall>i. up' ! i = (if a \<le> i \<and> i < b then Some h else up ! i)"
  proof
    fix i
    show "up' ! i = (if a \<le> i \<and> i < b then Some h else up ! i)"
      using u(3) ab Suc.prems by (cases "i = a") (auto simp: nth_list_update)
  qed
  ultimately show ?case using u(2) by simp
qed


lemma path_fwd_overlay:
  assumes "i < length up" "up ! i = Some u" "fwd st u i = Some q" "F u i = None"
  shows "path_fwd (overlay st F) up i = Some (u, q)"
  using assms by (simp add: path_fwd_def fwd_overlay)

lemma splice_spec:
  assumes new: "st0 new = Some (SkipNode_new nh v)"
    and up: "\<forall>i<nh. i < length up \<and> (\<exists>u. up ! i = Some u \<and> u \<noteq> new \<and> fwd st0 u i = Some (g i))"
    and m: "m \<le> nh"
  shows "splice_node (overlay st0 (splice_map up new g m)) up new [m ..< nh] =
           Some (overlay st0 (splice_map up new g nh))"
  using m
proof (induction "nh - m" arbitrary: m)
  case 0
  then show ?case by simp
next
  case (Suc d)
  then have mn: "m < nh" and d: "d = nh - Suc m" by simp_all
  obtain u where u: "m < length up" "up ! m = Some u" "u \<noteq> new" "fwd st0 u m = Some (g m)"
    using up mn by blast
  let ?F = "splice_map up new g m"
  let ?F1 = "\<lambda>a i. if a = new \<and> i = m then Some (g m) else ?F a i"
  let ?F2 = "\<lambda>a i. if a = u \<and> i = m then Some (Some new) else ?F1 a i"
  have pf: "path_fwd (overlay st0 ?F) up m = Some (u, g m)"
    using u by (intro path_fwd_overlay) (simp_all add: splice_map_def)
  have fn: "fwd st0 new m = Some None"
    using new mn by (simp add: fwd_def SkipNode_new_def)
  have s1: "set_fwd (overlay st0 ?F) new m (g m) = Some (overlay st0 ?F1)"
    using set_fwd_overlay[OF fn] by simp
  have s2: "set_fwd (overlay st0 ?F1) u m (Some new) = Some (overlay st0 ?F2)"
    using set_fwd_overlay[OF u(4)] by simp
  have F2: "?F2 = splice_map up new g (Suc m)"
    using u by (intro ext) (auto simp: splice_map_def less_Suc_eq)
  have "splice_node (overlay st0 ?F) up new [m ..< nh] = splice_node (overlay st0 ?F2) up new [Suc m ..< nh]"
    using mn pf s1 s2 by (simp add: upt_conv_Cons)
  also have "\<dots> = Some (overlay st0 (splice_map up new g nh))"
    unfolding F2 using Suc.hyps(1)[OF d] mn by simp
  finally show ?case .
qed

lemma splice_map_0: "splice_map up new g 0 = (\<lambda>a i. None)"
  by (intro ext) (simp add: splice_map_def)

lemma unlink_map_0: "unlink_map up f 0 = (\<lambda>a i. None)"
  by (intro ext) (simp add: unlink_map_def)

subsection \<open>The unlink loop, with and without the break\<close>

lemma unlink_step:
  assumes u: "m < length up" "up ! m = Some u" "fwd st u m = Some (Some c)"
    and c: "fwd st c m = Some (f m)" "\<forall>i<m. up ! i \<noteq> Some c"
  shows "path_fwd (overlay st (unlink_map up f m)) up m = Some (u, Some c)"
    and "fwd (overlay st (unlink_map up f m)) c m = Some (f m)"
    and "set_fwd (overlay st (unlink_map up f m)) u m (f m) =
           Some (overlay st (unlink_map up f (Suc m)))"
proof -
  show "path_fwd (overlay st (unlink_map up f m)) up m = Some (u, Some c)"
    using u by (intro path_fwd_overlay) (simp_all add: unlink_map_def)
  show "fwd (overlay st (unlink_map up f m)) c m = Some (f m)"
    using c by (simp add: fwd_overlay unlink_map_def)
  have "(\<lambda>a i. if a = u \<and> i = m then Some (f m) else unlink_map up f m a i) =
          unlink_map up f (Suc m)"
    using u by (intro ext) (auto simp: unlink_map_def less_Suc_eq)
  then show "set_fwd (overlay st (unlink_map up f m)) u m (f m) =
           Some (overlay st (unlink_map up f (Suc m)))"
    using set_fwd_overlay[OF u(3), of "unlink_map up f m" "f m"] by simp
qed

lemma unlink_all_spec:
  assumes up: "\<forall>i<hc. i < length up \<and> (\<exists>u. up ! i = Some u \<and> fwd st u i = Some (Some c))"
    and c: "\<forall>i<hc. fwd st c i = Some (f i) \<and> up ! i \<noteq> Some c"
    and m: "m \<le> hc"
  shows "unlink_all (overlay st (unlink_map up f m)) up c [m ..< hc] =
           Some (overlay st (unlink_map up f hc))"
  using m
proof (induction "hc - m" arbitrary: m)
  case 0
  then show ?case by simp
next
  case (Suc d)
  then have mn: "m < hc" and d: "d = hc - Suc m" by simp_all
  obtain u where u: "m < length up" "up ! m = Some u" "fwd st u m = Some (Some c)"
    using up mn by blast
  have c': "fwd st c m = Some (f m)" "\<forall>i<m. up ! i \<noteq> Some c" using c mn by auto
  note st = unlink_step[where f = f, OF u c']
  show ?case using mn st Suc.hyps(1)[OF d] by (simp add: upt_conv_Cons)
qed

lemma unlink_spec:
  assumes up: "\<forall>i<hc. i < length up \<and> (\<exists>u. up ! i = Some u \<and> fwd st u i = Some (Some c))"
    and c: "\<forall>i<hc. fwd st c i = Some (f i) \<and> up ! i \<noteq> Some c"
    and brk: "hc < ch \<longrightarrow> hc < length up \<and> (\<exists>u p. up ! hc = Some u \<and> fwd st u hc = Some p \<and> p \<noteq> Some c)"
    and m: "m \<le> hc" "hc \<le> ch"
  shows "unlink (overlay st (unlink_map up f m)) up c [m ..< ch] =
           Some (overlay st (unlink_map up f hc))"
  using m
proof (induction "hc - m" arbitrary: m)
  case 0
  then have [simp]: "m = hc" by simp
  show ?case
  proof (cases "hc < ch")
    case True
    then obtain u p where u: "hc < length up" "up ! hc = Some u" "fwd st u hc = Some p" "p \<noteq> Some c"
      using brk by blast
    have "path_fwd (overlay st (unlink_map up f hc)) up hc = Some (u, p)"
      using u by (intro path_fwd_overlay) (simp_all add: unlink_map_def)
    then show ?thesis using True u(4) by (simp add: upt_conv_Cons)
  next
    case False
    then show ?thesis using 0 by simp
  qed
next
  case (Suc d)
  then have mn: "m < hc" and d: "d = hc - Suc m" by simp_all
  obtain u where u: "m < length up" "up ! m = Some u" "fwd st u m = Some (Some c)"
    using up mn by blast
  have c': "fwd st c m = Some (f m)" "\<forall>i<m. up ! i \<noteq> Some c" using c mn by auto
  note st = unlink_step[where f = f, OF u c']
  have "m < ch" using mn Suc.prems by simp
  then show ?case using mn st Suc.hyps(1)[OF d] Suc.prems by (simp add: upt_conv_Cons)
qed

lemma trim_spec:
  assumes "st h = Some (node_of d MAX_HEIGHT ns)" "maxh ns \<le> n" "n \<le> MAX_HEIGHT"
  shows "trim st h n = Some (maxh ns)"
  using assms(2,3)
proof (induction n)
  case 0
  then show ?case by simp
next
  case (Suc n)
  have f: "fwd st h n = Some (nxt n ns)" using assms(1) Suc.prems by (simp add: fwd_node_of)
  show ?case
  proof (cases "nxt n ns")
    case None
    then have "maxh ns \<le> n" by (simp add: nxt_None_maxh)
    then show ?thesis using f None Suc by simp
  next
    case (Some a)
    then have "\<not> maxh ns \<le> n" using nxt_None_maxh[of n ns] by simp
    then have "maxh ns = Suc n" using Suc.prems by simp
    then show ?thesis using f Some by simp
  qed
qed

section \<open>The operations preserve well-formedness\<close>

lemma lower_upper: "lower v ns @ upper v ns = ns"
  by (simp add: lower_def upper_def)

lemma lower_lt: "n \<in> set (lower v ns) \<Longrightarrow> key_of n < v"
  unfolding lower_def by (rule set_takeWhileD[THEN conjunct2])

lemma upper_ge:
  "sorted_wrt (<) (map key_of ns) \<Longrightarrow> n \<in> set (upper v ns) \<Longrightarrow> \<not> key_of n < v"
proof (induction ns)
  case Nil
  then show ?case by (simp add: upper_def)
next
  case (Cons m ns)
  show ?case
  proof (cases "key_of m < v")
    case True
    then show ?thesis using Cons by (simp add: upper_def)
  next
    case False
    then have "upper v (m # ns) = m # ns" by (simp add: upper_def)
    then show ?thesis using Cons.prems False by auto
  qed
qed

lemma upper_hd_iff:
  assumes "sorted_wrt (<) (map key_of ns)"
  shows "v \<in> key_of ` set ns \<longleftrightarrow> (\<exists>n rest. upper v ns = n # rest \<and> key_of n = v)"
proof
  assume "v \<in> key_of ` set ns"
  then obtain m where m: "m \<in> set ns" "key_of m = v" by auto
  then have "m \<notin> set (lower v ns)" using lower_lt by fastforce
  then have mu: "m \<in> set (upper v ns)" using m(1) lower_upper[of v ns] by (metis Un_iff set_append)
  then obtain n rest where nr: "upper v ns = n # rest" by (cases "upper v ns") auto
  have "sorted_wrt (<) (map key_of (lower v ns @ upper v ns))" using assms by (simp add: lower_upper)
  then have "sorted_wrt (<) (map key_of (n # rest))" using nr by (simp add: sorted_wrt_append)
  then have "m = n \<or> key_of n < key_of m" using mu nr by auto
  moreover have "\<not> key_of n < v" using upper_ge[OF assms, of n v] nr by simp
  ultimately have "key_of n = v" using m(2) by auto
  then show "\<exists>n rest. upper v ns = n # rest \<and> key_of n = v" using nr by blast
next
  assume "\<exists>n rest. upper v ns = n # rest \<and> key_of n = v"
  then obtain n rest where "upper v ns = n # rest" "key_of n = v" by blast
  then have "n \<in> set ns" using lower_upper[of v ns] by (metis in_set_conv_decomp)
  then show "v \<in> key_of ` set ns" using \<open>key_of n = v\<close> by auto
qed

lemma maxh_le: "\<forall>n \<in> set ns. hgt n \<le> b \<Longrightarrow> maxh ns \<le> b"
  by (induction ns) auto

lemma nxt0: "\<forall>n \<in> set ns. 1 \<le> hgt n \<Longrightarrow> nxt 0 ns = (case ns of [] \<Rightarrow> None | n # _ \<Rightarrow> Some (addr_of n))"
  by (cases ns) auto

lemma lastl_append: "lastl i (xs @ ys) c = lastl i ys (lastl i xs c)"
  by (induction xs arbitrary: c) auto

lemma lastl_in: "nxt i ns \<noteq> None \<Longrightarrow> lastl i ns c \<in> addr_of ` set ns"
  using aft_decomp[of i ns c] by (metis image_eqI in_set_conv_decomp)

lemma lastl_self_iff: "c \<notin> addr_of ` set ns \<Longrightarrow> lastl i ns c = c \<longleftrightarrow> nxt i ns = None"
proof (cases "nxt i ns")
  case None
  then show ?thesis by (simp add: lastl_no)
next
  case (Some a)
  assume "c \<notin> addr_of ` set ns"
  moreover have "lastl i ns c \<in> addr_of ` set ns" using Some by (intro lastl_in) simp
  ultimately show ?thesis using Some by auto
qed

lemma lastl_head_iff: "h \<notin> addr_of ` set pre \<Longrightarrow> lastl i pre h = h \<longleftrightarrow> nxt i pre = None"
  by (rule lastl_self_iff)

lemma lastl_mid_iff:
  assumes "distinct (map addr_of (p @ n # q))" "i < hgt n"
  shows "lastl i (p @ n # q) c = addr_of n \<longleftrightarrow> nxt i q = None"
proof -
  have e: "lastl i (p @ n # q) c = lastl i q (addr_of n)" using assms(2) by (simp add: lastl_append)
  have "addr_of n \<notin> addr_of ` set q" using assms(1) by auto
  then show ?thesis unfolding e by (rule lastl_self_iff)
qed

lemma linked_appendI:
  assumes "linked st ys"
    and "\<And>p n q. xs = p @ n # q \<Longrightarrow> st (addr_of n) = Some (node_of (key_of n) (hgt n) (q @ ys))"
  shows "linked st (xs @ ys)"
  using assms(2)
proof (induction xs)
  case Nil
  then show ?case using assms(1) by simp
next
  case (Cons x xs)
  have "st (addr_of x) = Some (node_of (key_of x) (hgt x) (xs @ ys))"
    using Cons.prems[of "[]" x xs] by simp
  moreover have "linked st (xs @ ys)"
  proof (rule Cons.IH)
    fix p n q assume "xs = p @ n # q"
    then have "x # xs = (x # p) @ n # q" by simp
    then show "st (addr_of n) = Some (node_of (key_of n) (hgt n) (q @ ys))" by (rule Cons.prems)
  qed
  ultimately show ?case by simp
qed

subsection \<open>Rewiring the predecessors\<close>

lemma relink_node:
  assumes st: "st a = Some (node_of k hh (r @ old))"
    and F: "\<forall>i<hh. F a i = (if i < m \<and> nxt i r = None then Some (w i) else None)"
    and w: "\<forall>i<m. w i = nxt i new" and o: "\<forall>i\<ge>m. nxt i old = nxt i new"
  shows "overlay st F a = Some (node_of k hh (r @ new))"
proof (rule overlay_node_of[where st = st and a = a and rest = "r @ old", OF st], intro allI impI)
  fix i assume i: "i < hh"
  show "(case F a i of None \<Rightarrow> nxt i (r @ old) | Some p \<Rightarrow> p) = nxt i (r @ new)"
  proof (cases "nxt i r")
    case None
    show ?thesis
    proof (cases "i < m")
      case True
      then show ?thesis using None F i w by (simp add: nxt_append)
    next
      case False
      then show ?thesis using None F i o by (simp add: nxt_append)
    qed
  next
    case (Some b)
    then show ?thesis using F i by (simp add: nxt_append)
  qed
qed

lemma relink:
  assumes hd: "st h = Some (node_of d MAX_HEIGHT (pre @ old))"
    and l: "linked st (pre @ old)"
    and dist: "distinct (h # map addr_of pre)"
    and hb: "\<forall>n \<in> set pre. hgt n \<le> MAX_HEIGHT"
    and F: "\<forall>a i. i < MAX_HEIGHT \<longrightarrow> a \<in> set (h # map addr_of pre) \<longrightarrow>
              F a i = (if i < m \<and> lastl i pre h = a then Some (w i) else None)"
    and w: "\<forall>i<m. w i = nxt i new" and o: "\<forall>i\<ge>m. nxt i old = nxt i new"
  shows "overlay st F h = Some (node_of d MAX_HEIGHT (pre @ new))"
    and "\<And>p n q. pre = p @ n # q \<Longrightarrow>
           overlay st F (addr_of n) = Some (node_of (key_of n) (hgt n) (q @ new))"
proof -
  have "h \<notin> addr_of ` set pre" using dist by auto
  then have "\<forall>i<MAX_HEIGHT. F h i = (if i < m \<and> nxt i pre = None then Some (w i) else None)"
    using F by (simp add: lastl_head_iff)
  then show "overlay st F h = Some (node_of d MAX_HEIGHT (pre @ new))"
    using relink_node[where st = st and a = h and F = F and r = pre and old = old
        and new = new and w = w and m = m, OF hd _ w o] by blast
next
  fix p n q assume pre: "pre = p @ n # q"
  then have "pre @ old = p @ n # (q @ old)" by simp
  then have sn: "st (addr_of n) = Some (node_of (key_of n) (hgt n) (q @ old))"
    using l linked_mid by metis
  have dn: "distinct (map addr_of (p @ n # q))" using dist pre by simp
  have "hgt n \<le> MAX_HEIGHT" using hb pre by simp
  then have "\<forall>i<hgt n. F (addr_of n) i = (if i < m \<and> nxt i q = None then Some (w i) else None)"
    using F pre lastl_mid_iff[OF dn] by auto
  then show "overlay st F (addr_of n) = Some (node_of (key_of n) (hgt n) (q @ new))"
    using relink_node[where st = st and a = "addr_of n" and F = F and r = q and old = old
        and new = new and w = w and m = m, OF sn _ w o] by blast
qed

subsection \<open>The search in a well-formed state\<close>

lemma locate:
  fixes v :: "'k::linorder"
  assumes "inv s ns"
  defines "pre \<equiv> lower v ns" and "post \<equiv> upper v ns" and "h \<equiv> sentinel_head s"
  shows "\<exists>up. find_path (store s) v (current_height s) h (replicate MAX_HEIGHT None)
                = Some (lastl 0 pre h, up) \<and>
              length up = MAX_HEIGHT \<and>
              (\<forall>i<current_height s. up ! i = Some (lastl i pre h)) \<and>
              (\<forall>i\<ge>current_height s. i < MAX_HEIGHT \<longrightarrow> up ! i = None)"
    and "fwd (store s) (lastl 0 pre h) 0 = Some (nxt 0 post)"
proof -
  have ns: "ns = pre @ post" by (simp add: pre_def post_def lower_upper)
  obtain d where hd: "store s h = Some (node_of d MAX_HEIGHT (pre @ post))"
    using assms(1) by (auto simp: inv_def h_def ns)
  have l: "linked (store s) (pre @ post)" using assms(1) by (simp add: inv_def ns)
  have lt: "\<forall>n \<in> set pre. key_of n < v" using lower_lt by (auto simp: pre_def)
  have "sorted_wrt (<) (map key_of ns)" using assms(1) by (simp add: inv_def)
  then have ge: "\<forall>n \<in> set post. \<not> key_of n < v" using upper_ge by (auto simp: post_def)
  have ch: "current_height s = maxh ns" using assms(1) by (simp add: inv_def)
  have "\<forall>n \<in> set ns. hgt n \<le> MAX_HEIGHT" using assms(1) by (simp add: inv_def)
  then have chm: "current_height s \<le> MAX_HEIGHT" unfolding ch by (rule maxh_le)
  have "maxh pre \<le> current_height s" by (simp add: ch ns maxh_append)
  then have top: "lastl (current_height s) pre h = h" by (simp add: lastl_no nxt_None_maxh)
  have len: "length (replicate MAX_HEIGHT (None::ptr)) = MAX_HEIGHT" by simp
  show "\<exists>up. find_path (store s) v (current_height s) h (replicate MAX_HEIGHT None)
                = Some (lastl 0 pre h, up) \<and>
              length up = MAX_HEIGHT \<and>
              (\<forall>i<current_height s. up ! i = Some (lastl i pre h)) \<and>
              (\<forall>i\<ge>current_height s. i < MAX_HEIGHT \<longrightarrow> up ! i = None)"
    using find_path_spec[OF hd l lt ge chm len] unfolding top by auto
  have "0 < MAX_HEIGHT" by (simp add: MAX_HEIGHT_def)
  then have "fwd (store s) (lastl 0 pre h) 0 = Some (nxt 0 (aft 0 pre @ post))"
    using fwd_lastl[OF hd l, of 0 0] by simp
  then show "fwd (store s) (lastl 0 pre h) 0 = Some (nxt 0 post)"
    by (simp add: nxt_append aft_nxt)
qed

lemma height_loop_go:
  "g 0 < promotion_probability \<Longrightarrow> height < MAX_HEIGHT \<Longrightarrow>
     height_loop g height = height_loop (\<lambda>n. g (Suc n)) (Suc height)"
  by (subst height_loop.simps) simp

lemma height_loop_stop:
  "\<not> (g 0 < promotion_probability \<and> height < MAX_HEIGHT) \<Longrightarrow>
     height_loop g height = (height, \<lambda>n. g (Suc n))"
  by (subst height_loop.simps) auto

lemma height_loop_bounds:
  "h \<le> MAX_HEIGHT \<Longrightarrow> h \<le> fst (height_loop g h) \<and> fst (height_loop g h) \<le> MAX_HEIGHT"
proof (induction g h rule: height_loop.induct)
  case (1 g height)
  show ?case
  proof (cases "g 0 < promotion_probability \<and> height < MAX_HEIGHT")
    case True
    then have "Suc height \<le> MAX_HEIGHT" by simp
    then have "Suc height \<le> fst (height_loop (\<lambda>n. g (Suc n)) (Suc height)) \<and>
        fst (height_loop (\<lambda>n. g (Suc n)) (Suc height)) \<le> MAX_HEIGHT"
      using "1.IH" True by blast
    then show ?thesis using True by (simp add: height_loop_go)
  next
    case False
    show ?thesis using height_loop_stop[of g height] False "1.prems" by simp
  qed
qed

lemma generateRandomHeight_bounds:
  "1 \<le> fst (generateRandomHeight g)" "fst (generateRandomHeight g) \<le> MAX_HEIGHT"
  using height_loop_bounds[of 1 g] by (simp_all add: generateRandomHeight_def MAX_HEIGHT_def)

lemma key_is_upper:
  fixes v :: "'k::linorder"
  assumes "inv s ns"
  shows "key_is (store s) (nxt 0 (upper v ns)) v = Some (v \<in> key_of ` set ns)"
proof (cases "upper v ns")
  case Nil
  have "sorted_wrt (<) (map key_of ns)" using assms by (simp add: inv_def)
  then have "v \<notin> key_of ` set ns" using upper_hd_iff[of ns v] Nil by simp
  then show ?thesis using Nil by (simp add: key_is_def)
next
  case (Cons n rest)
  have srt: "sorted_wrt (<) (map key_of ns)" using assms by (simp add: inv_def)
  have n: "n \<in> set ns" using Cons lower_upper[of v ns] by (metis in_set_conv_decomp)
  then have "1 \<le> hgt n" using assms by (simp add: inv_def)
  then have nx: "nxt 0 (upper v ns) = Some (addr_of n)" using Cons by simp
  have "linked (store s) ns" using assms by (simp add: inv_def)
  then obtain q where "store s (addr_of n) = Some (node_of (key_of n) (hgt n) q)"
    using linked_mem n by blast
  then have "key_is (store s) (nxt 0 (upper v ns)) v = Some (key_of n = v)"
    using nx by (simp add: key_is_def node_of_def)
  moreover have "v \<in> key_of ` set ns \<longleftrightarrow> key_of n = v"
    using upper_hd_iff[OF srt, of v] Cons by simp
  ultimately show ?thesis by simp
qed

lemma insert_present:
  fixes v :: "'k::linorder"
  assumes "inv s ns" "v \<in> key_of ` set ns"
  shows "insert_sl s v = Some (False, s)"
proof -
  obtain up where "find_path (store s) v (current_height s) (sentinel_head s)
      (replicate MAX_HEIGHT None) = Some (lastl 0 (lower v ns) (sentinel_head s), up)"
    using locate(1)[OF assms(1), of v] by blast
  moreover note locate(2)[OF assms(1), of v] key_is_upper[OF assms(1), of v]
  ultimately show ?thesis using assms(2) by (simp add: insert_sl_def)
qed

lemma invI:
  assumes "store s (sentinel_head s) = Some (node_of d MAX_HEIGHT ns)"
    and "linked (store s) ns"
    and "distinct (sentinel_head s # map addr_of ns)"
    and "dom (store s) = set (sentinel_head s # map addr_of ns)"
    and "sorted_wrt (<) (map key_of ns)"
    and "\<forall>n \<in> set ns. 1 \<le> hgt n \<and> hgt n \<le> MAX_HEIGHT \<and> addr_of n < brk s"
    and "sentinel_head s < brk s"
    and "current_height s = maxh ns"
    and "element_count s = length ns"
  shows "inv s ns"
  unfolding inv_def using assms by blast

lemma lastl_bound:
  assumes "c < b" "\<forall>n \<in> set ns. addr_of n < b"
  shows "lastl i ns c < b"
  using lastl_mem[of i ns c] assms by auto

lemma lastl_in_set: "lastl i ns c \<in> set (c # map addr_of ns)"
  using lastl_mem[of i ns c] by auto

lemma sorted_insert_cell:
  fixes v :: "'k::linorder"
  assumes "sorted_wrt (<) (map key_of ns)" "v \<notin> key_of ` set ns"
  shows "sorted_wrt (<) (map key_of (lower v ns @ Cell a v nh # upper v ns))"
proof -
  have s: "sorted_wrt (<) (map key_of (lower v ns @ upper v ns))"
    using assms(1) by (simp add: lower_upper)
  have u: "\<forall>n \<in> set (upper v ns). v < key_of n"
  proof
    fix n assume n: "n \<in> set (upper v ns)"
    then have "\<not> key_of n < v" using upper_ge[OF assms(1)] by blast
    moreover have "n \<in> set ns" using n lower_upper[of v ns] by (metis Un_iff set_append)
    then have "key_of n \<noteq> v" using assms(2) by auto
    ultimately show "v < key_of n" by auto
  qed
  have l: "\<forall>n \<in> set (lower v ns). key_of n < v" using lower_lt by blast
  show ?thesis using s u l by (auto simp: sorted_wrt_append)
qed

lemma insert_absent:
  fixes v :: "'k::linorder"
  assumes inv: "inv s ns" and nin: "v \<notin> key_of ` set ns"
  defines "nh \<equiv> fst (generateRandomHeight (random_engine s))"
  shows "\<exists>s'. insert_sl s v = Some (True, s') \<and>
           inv s' (lower v ns @ Cell (brk s) v nh # upper v ns) \<and>
           random_engine s' = snd (generateRandomHeight (random_engine s)) \<and>
           sentinel_head s' = sentinel_head s"
proof -
  define pre where "pre = lower v ns"
  define post where "post = upper v ns"
  define h where "h = sentinel_head s"
  define new where "new = brk s"
  define ch where "ch = current_height s"
  define g' where "g' = snd (generateRandomHeight (random_engine s))"
  define N where "N = Cell new v nh"
  define g where "g = (\<lambda>i. nxt i post)"
  define st0 where "st0 = (store s)(new := Some (SkipNode_new nh v))"
  have ns: "ns = pre @ post" by (simp add: pre_def post_def lower_upper)
  have gen: "generateRandomHeight (random_engine s) = (nh, g')" by (simp add: nh_def g'_def)
  have nh: "1 \<le> nh" "nh \<le> MAX_HEIGHT" using generateRandomHeight_bounds by (simp_all add: nh_def)
  obtain d where hd: "store s h = Some (node_of d MAX_HEIGHT (pre @ post))"
    using inv by (auto simp: inv_def h_def ns)
  have l: "linked (store s) (pre @ post)" using inv by (simp add: inv_def ns)
  have dist: "distinct (h # map addr_of (pre @ post))" using inv by (simp add: inv_def h_def ns)
  have dm: "dom (store s) = set (h # map addr_of (pre @ post))" using inv by (simp add: inv_def h_def ns)
  have srt: "sorted_wrt (<) (map key_of ns)" using inv by (simp add: inv_def)
  have nb: "\<forall>n \<in> set (pre @ post). 1 \<le> hgt n \<and> hgt n \<le> MAX_HEIGHT \<and> addr_of n < new"
    using inv by (simp add: inv_def new_def ns)
  have hb: "h < new" using inv by (simp add: inv_def h_def new_def)
  have chm: "ch = maxh (pre @ post)" using inv by (simp add: inv_def ch_def ns)
  have cnt: "element_count s = length (pre @ post)" using inv by (simp add: inv_def ns)
  \<comment> \<open>the search\<close>
  obtain up where fp: "find_path (store s) v ch h (replicate MAX_HEIGHT None) = Some (lastl 0 pre h, up)"
    and len: "length up = MAX_HEIGHT" and upl: "\<forall>i<ch. up ! i = Some (lastl i pre h)"
    using locate(1)[OF inv, of v] unfolding pre_def h_def ch_def by blast
  have f0: "fwd (store s) (lastl 0 pre h) 0 = Some (nxt 0 post)"
    using locate(2)[OF inv, of v] by (simp add: pre_def post_def h_def)
  have ki: "key_is (store s) (nxt 0 post) v = Some False"
    using key_is_upper[OF inv, of v] nin by (simp add: post_def)
  \<comment> \<open>the update path, extended to the new height\<close>
  have top: "\<forall>i\<ge>ch. lastl i pre h = h"
    by (simp add: chm maxh_append lastl_no nxt_None_maxh)
  obtain up2 where rp: "(if nh > ch then raise_path up h [ch ..< nh] else Some up) = Some up2"
    and len2: "length up2 = MAX_HEIGHT" and up2: "\<forall>i<nh. up2 ! i = Some (lastl i pre h)"
  proof (cases "nh > ch")
    case True
    obtain u where u: "raise_path up h [ch ..< nh] = Some u" "length u = length up"
      "\<forall>i. u ! i = (if ch \<le> i \<and> i < nh then Some h else up ! i)"
      using raise_path_spec[of nh up h ch] nh(2) len by auto
    have "\<forall>i<nh. u ! i = Some (lastl i pre h)" using u(3) upl top by auto
    then show ?thesis using that[of u] True u(1,2) len by simp
  next
    case False
    then have "\<forall>i<nh. up ! i = Some (lastl i pre h)" using upl by auto
    then show ?thesis using that[of up] False len by simp
  qed
  \<comment> \<open>the store with the new node allocated\<close>
  have nn: "new \<notin> set (h # map addr_of (pre @ post))" using nb hb by auto
  have hd0: "st0 h = Some (node_of d MAX_HEIGHT (pre @ post))"
    using hd hb by (simp add: st0_def)
  have l0: "linked st0 (pre @ post)"
    unfolding st0_def using l nn by (subst linked_upd) auto
  have new0: "st0 new = Some (SkipNode_new nh v)" by (simp add: st0_def)
  have pathok: "\<forall>i<nh. i < length up2 \<and>
      (\<exists>u. up2 ! i = Some u \<and> u \<noteq> new \<and> fwd st0 u i = Some (g i))"
  proof (intro allI impI)
    fix i assume i: "i < nh"
    then have im: "i < MAX_HEIGHT" using nh(2) by simp
    have "lastl i pre h < new" using hb nb by (intro lastl_bound) auto
    moreover have "fwd st0 (lastl i pre h) i = Some (nxt i (aft i pre @ post))"
      using fwd_lastl[OF hd0 l0, of i i] im by simp
    then have "fwd st0 (lastl i pre h) i = Some (g i)"
      by (simp add: g_def nxt_append aft_nxt)
    ultimately show "i < length up2 \<and>
      (\<exists>u. up2 ! i = Some u \<and> u \<noteq> new \<and> fwd st0 u i = Some (g i))"
      using up2 i im len2 by auto
  qed
  define F where "F = splice_map up2 new g nh"
  have sp: "splice_node st0 up2 new [0 ..< nh] = Some (overlay st0 F)"
    using splice_spec[OF new0 pathok, of 0] by (simp add: splice_map_0 overlay_empty F_def)
  \<comment> \<open>the result of the call\<close>
  define s' where "s' = s\<lparr>store := overlay st0 F, brk := Suc new,
      current_height := (if nh > ch then nh else ch),
      element_count := Suc (element_count s), random_engine := g'\<rparr>"
  have res: "insert_sl s v = Some (True, s')"
  proof (cases "nh > ch")
    case True
    then have "raise_path up h [ch ..< nh] = Some up2" using rp by simp
    then show ?thesis using True fp f0 ki gen sp
      by (simp add: insert_sl_def s'_def ch_def[symmetric] h_def[symmetric] new_def[symmetric]
        st0_def[symmetric])
  next
    case False
    then have "up2 = up" using rp by simp
    then show ?thesis using False fp f0 ki gen sp
      by (simp add: insert_sl_def s'_def ch_def[symmetric] h_def[symmetric] new_def[symmetric]
        st0_def[symmetric])
  qed
  \<comment> \<open>the new store represents the list with the new cell\<close>
  have Fpre: "\<forall>a i. i < MAX_HEIGHT \<longrightarrow> a \<in> set (h # map addr_of pre) \<longrightarrow>
      F a i = (if i < nh \<and> lastl i pre h = a then Some (Some new) else None)"
    using up2 nn by (auto simp: F_def splice_map_def)
  have w: "\<forall>i<nh. Some new = nxt i (N # post)" by (simp add: N_def)
  have o: "\<forall>i\<ge>nh. nxt i post = nxt i (N # post)" by (simp add: N_def)
  have dpre: "distinct (h # map addr_of pre)" using dist by simp
  have hpre: "\<forall>n \<in> set pre. hgt n \<le> MAX_HEIGHT" using nb by simp
  note rl = relink[where st = st0 and F = F and w = "\<lambda>i. Some new" and m = nh
      and old = post and new = "N # post", OF hd0 l0 dpre hpre Fpre w o]
  have hd': "overlay st0 F h = Some (node_of d MAX_HEIGHT (pre @ N # post))" by (rule rl(1))
  have Fnew: "overlay st0 F new = Some (node_of v nh post)"
    by (simp add: overlay_def new0 SkipNode_new_def node_of_def F_def splice_map_def g_def)
  have Fpost: "\<forall>n \<in> set post. overlay st0 F (addr_of n) = st0 (addr_of n)"
  proof
    fix n assume n: "n \<in> set post"
    have "addr_of n \<notin> set (h # map addr_of pre)" using dist n by auto
    then have "\<forall>i. lastl i pre h \<noteq> addr_of n" using lastl_in_set[of _ pre h] by metis
    moreover have "addr_of n \<noteq> new" using nb n by auto
    ultimately have "\<forall>i. F (addr_of n) i = None" using up2 by (simp add: F_def splice_map_def)
    then show "overlay st0 F (addr_of n) = st0 (addr_of n)" by (rule overlay_same)
  qed
  have "linked st0 post" using l0 linked_appendD by blast
  then have "linked (overlay st0 F) post" using Fpost by (subst linked_cong[of post _ st0]) auto
  then have lN: "linked (overlay st0 F) (N # post)" using Fnew by (simp add: N_def)
  have l': "linked (overlay st0 F) (pre @ N # post)"
    using lN rl(2) by (rule linked_appendI)
  have dist': "distinct (h # map addr_of (pre @ N # post))" using dist nn by (auto simp: N_def)
  have dm': "dom (overlay st0 F) = set (h # map addr_of (pre @ N # post))"
    using dm by (auto simp: dom_overlay st0_def N_def)
  have srt': "sorted_wrt (<) (map key_of (pre @ N # post))"
    using sorted_insert_cell[OF srt nin] by (simp add: pre_def post_def N_def)
  have nb': "\<forall>n \<in> set (pre @ N # post). 1 \<le> hgt n \<and> hgt n \<le> MAX_HEIGHT \<and> addr_of n < Suc new"
    using nb nh by (auto simp: N_def less_Suc_eq)
  have chm': "(if nh > ch then nh else ch) = maxh (pre @ N # post)"
    by (auto simp: chm maxh_append N_def)
  have "inv s' (pre @ N # post)"
  proof (rule invI)
    show "store s' (sentinel_head s') = Some (node_of d MAX_HEIGHT (pre @ N # post))"
      using hd' by (simp add: s'_def h_def)
    show "linked (store s') (pre @ N # post)" using l' by (simp add: s'_def)
    show "distinct (sentinel_head s' # map addr_of (pre @ N # post))"
      using dist' by (simp add: s'_def h_def)
    show "dom (store s') = set (sentinel_head s' # map addr_of (pre @ N # post))"
      using dm' by (simp add: s'_def h_def)
    show "sorted_wrt (<) (map key_of (pre @ N # post))" by (rule srt')
    show "\<forall>n \<in> set (pre @ N # post). 1 \<le> hgt n \<and> hgt n \<le> MAX_HEIGHT \<and> addr_of n < brk s'"
      using nb' by (simp add: s'_def)
    show "sentinel_head s' < brk s'" using hb by (simp add: s'_def h_def)
    show "current_height s' = maxh (pre @ N # post)" using chm' by (simp add: s'_def)
    show "element_count s' = length (pre @ N # post)" using cnt by (simp add: s'_def)
  qed
  then show ?thesis using res
    by (simp add: pre_def post_def N_def new_def s'_def g'_def)
qed

lemma erase_absent:
  fixes v :: "'k::linorder"
  assumes inv: "inv s ns" and nin: "v \<notin> key_of ` set ns"
  shows "erase s v = Some (False, s)"
proof (cases "empty_sl s")
  case True
  then show ?thesis by (simp add: erase_def)
next
  case False
  obtain up where fp: "find_path (store s) v (current_height s) (sentinel_head s)
      (replicate MAX_HEIGHT None) = Some (lastl 0 (lower v ns) (sentinel_head s), up)"
    using locate(1)[OF inv, of v] by blast
  note f0 = locate(2)[OF inv, of v]
  note ki = key_is_upper[OF inv, of v]
  show ?thesis
  proof (cases "nxt 0 (upper v ns)")
    case None
    then show ?thesis using False fp f0 by (simp add: erase_def)
  next
    case (Some c)
    then obtain nd where "store s c = Some nd" "val nd \<noteq> v"
      using ki nin by (auto simp: key_is_def split: option.splits)
    then show ?thesis using False fp f0 Some by (simp add: erase_def)
  qed
qed

lemma unlink_facts:
  fixes v :: "'k::linorder"
  assumes inv: "inv s ns" and up: "upper v ns = C # post"
    and fp: "find_path (store s) v (current_height s) (sentinel_head s)
      (replicate MAX_HEIGHT None) = Some (cur, up)"
  shows "\<forall>i<hgt C. i < length up \<and>
           (\<exists>u. up ! i = Some u \<and> fwd (store s) u i = Some (Some (addr_of C)))"
    and "\<forall>i<hgt C. fwd (store s) (addr_of C) i = Some (nxt i post) \<and> up ! i \<noteq> Some (addr_of C)"
    and "hgt C < current_height s \<longrightarrow> hgt C < length up \<and>
           (\<exists>u p. up ! hgt C = Some u \<and> fwd (store s) u (hgt C) = Some p \<and> p \<noteq> Some (addr_of C))"
    and "hgt C \<le> current_height s"
    and "length up = MAX_HEIGHT"
    and "\<forall>i<current_height s. up ! i = Some (lastl i (lower v ns) (sentinel_head s))"
proof -
  define pre where "pre = lower v ns"
  define h where "h = sentinel_head s"
  define st where "st = store s"
  define ch where "ch = current_height s"
  have ns: "ns = pre @ C # post" using lower_upper[of v ns] up by (simp add: pre_def)
  obtain d where hd: "st h = Some (node_of d MAX_HEIGHT (pre @ C # post))"
    using inv by (auto simp: inv_def h_def ns st_def)
  have l: "linked st (pre @ C # post)" using inv by (simp add: inv_def ns st_def)
  have dist: "distinct (h # map addr_of (pre @ C # post))" using inv by (simp add: inv_def h_def ns)
  have chm: "ch = maxh (pre @ C # post)" using inv by (simp add: inv_def ch_def ns)
  have "\<forall>n \<in> set ns. hgt n \<le> MAX_HEIGHT" using inv by (simp add: inv_def)
  then have "maxh ns \<le> MAX_HEIGHT" by (rule maxh_le)
  then have chM: "ch \<le> MAX_HEIGHT" by (simp add: chm ns)
  have len: "length up = MAX_HEIGHT" and upl: "\<forall>i<ch. up ! i = Some (lastl i pre h)"
    using locate(1)[OF inv, of v] fp unfolding pre_def h_def ch_def by auto
  show "length up = MAX_HEIGHT" by (rule len)
  show "\<forall>i<current_height s. up ! i = Some (lastl i (lower v ns) (sentinel_head s))"
    using upl by (simp add: ch_def pre_def h_def)
  have hc: "hgt C \<le> ch" by (simp add: chm maxh_append)
  then show "hgt C \<le> current_height s" by (simp add: ch_def)
  have sc: "st (addr_of C) = Some (node_of (key_of C) (hgt C) post)"
    using l linked_mid by blast
  have notc: "\<forall>i. lastl i pre h \<noteq> addr_of C"
  proof
    fix i
    have "addr_of C \<notin> set (h # map addr_of pre)" using dist by auto
    then show "lastl i pre h \<noteq> addr_of C" using lastl_in_set[of i pre h] by metis
  qed
  have F: "\<forall>i<ch. fwd st (lastl i pre h) i = Some (nxt i (C # post))"
  proof (intro allI impI)
    fix i assume "i < ch"
    then have "i < MAX_HEIGHT" using chM by simp
    then have "fwd st (lastl i pre h) i = Some (nxt i (aft i pre @ C # post))"
      using fwd_lastl[OF hd l, of i i] by simp
    then show "fwd st (lastl i pre h) i = Some (nxt i (C # post))"
      by (simp add: nxt_append aft_nxt)
  qed
  show "\<forall>i<hgt C. i < length up \<and>
           (\<exists>u. up ! i = Some u \<and> fwd (store s) u i = Some (Some (addr_of C)))"
    using F upl hc len chM by (auto simp: st_def)
  show "\<forall>i<hgt C. fwd (store s) (addr_of C) i = Some (nxt i post) \<and> up ! i \<noteq> Some (addr_of C)"
    using sc upl hc notc by (auto simp: st_def[symmetric] fwd_node_of)
  show "hgt C < current_height s \<longrightarrow> hgt C < length up \<and>
           (\<exists>u p. up ! hgt C = Some u \<and> fwd (store s) u (hgt C) = Some p \<and> p \<noteq> Some (addr_of C))"
  proof
    assume a: "hgt C < current_height s"
    then have a': "hgt C < ch" by (simp add: ch_def)
    have "addr_of C \<notin> addr_of ` set post" using dist by auto
    then have "nxt (hgt C) post \<noteq> Some (addr_of C)"
      using nxt_Some_mem[of "hgt C" post "addr_of C"] by (metis image_eqI)
    moreover have "fwd st (lastl (hgt C) pre h) (hgt C) = Some (nxt (hgt C) post)"
      using F a' by simp
    ultimately show "hgt C < length up \<and>
           (\<exists>u p. up ! hgt C = Some u \<and> fwd (store s) u (hgt C) = Some p \<and> p \<noteq> Some (addr_of C))"
      using upl a' len chM by (auto simp: st_def)
  qed
qed

lemma erase_present:
  fixes v :: "'k::linorder"
  assumes inv: "inv s ns" and vin: "v \<in> key_of ` set ns"
  shows "\<exists>s'. erase s v = Some (True, s') \<and>
           inv s' (lower v ns @ tl (upper v ns)) \<and>
           random_engine s' = random_engine s \<and> brk s' = brk s \<and>
           sentinel_head s' = sentinel_head s \<and>
           store s' (addr_of (hd (upper v ns))) = None"
proof -
  define pre where "pre = lower v ns"
  define h where "h = sentinel_head s"
  define st where "st = store s"
  define ch where "ch = current_height s"
  have srt: "sorted_wrt (<) (map key_of ns)" using inv by (simp add: inv_def)
  obtain C post where up: "upper v ns = C # post" and kC: "key_of C = v"
    using upper_hd_iff[OF srt, of v] vin by blast
  define c where "c = addr_of C"
  define f where "f = (\<lambda>i. nxt i post)"
  have ns: "ns = pre @ C # post" using lower_upper[of v ns] up by (simp add: pre_def)
  obtain d where hd: "st h = Some (node_of d MAX_HEIGHT (pre @ C # post))"
    using inv by (auto simp: inv_def h_def ns st_def)
  have l: "linked st (pre @ C # post)" using inv by (simp add: inv_def ns st_def)
  have dist: "distinct (h # map addr_of (pre @ C # post))" using inv by (simp add: inv_def h_def ns)
  have dm: "dom st = set (h # map addr_of (pre @ C # post))" using inv by (simp add: inv_def h_def ns st_def)
  have nb: "\<forall>n \<in> set (pre @ C # post). 1 \<le> hgt n \<and> hgt n \<le> MAX_HEIGHT \<and> addr_of n < brk s"
    using inv by (simp add: inv_def ns)
  have hb: "h < brk s" using inv by (simp add: inv_def h_def)
  have chm: "ch = maxh (pre @ C # post)" using inv by (simp add: inv_def ch_def ns)
  have cnt: "element_count s = length (pre @ C # post)" using inv by (simp add: inv_def ns)
  have ne: "\<not> empty_sl s" using cnt by (simp add: empty_sl_def)
  have chM: "ch \<le> MAX_HEIGHT" unfolding chm using nb by (intro maxh_le) simp
  obtain up where fp: "find_path st v ch h (replicate MAX_HEIGHT None) = Some (lastl 0 pre h, up)"
    using locate(1)[OF inv, of v] unfolding pre_def h_def ch_def st_def by blast
  have f0: "fwd st (lastl 0 pre h) 0 = Some (Some c)"
    using locate(2)[OF inv, of v] up nb by (simp add: pre_def h_def st_def c_def)
  have sc: "st c = Some (node_of v (hgt C) post)"
    using l linked_mid[of st pre C post] kC by (simp add: c_def)
  note uf = unlink_facts[OF inv up fp[unfolded st_def ch_def h_def], folded st_def ch_def h_def c_def pre_def f_def]
  define F where "F = unlink_map up f (hgt C)"
  have ul: "unlink st up c [0 ..< ch] = Some (overlay st F)"
    using unlink_spec[where st = st and up = up and c = c and f = f and hc = "hgt C" and ch = ch and m = 0]
      uf(1,2,3,4)
    by (simp add: unlink_map_0 overlay_empty F_def f_def)
  define st2 where "st2 = (overlay st F)(c := None)"
  have Fpre: "\<forall>a i. i < MAX_HEIGHT \<longrightarrow> a \<in> set (h # map addr_of pre) \<longrightarrow>
      F a i = (if i < hgt C \<and> lastl i pre h = a then Some (f i) else None)"
    using uf(4,6) by (auto simp: F_def unlink_map_def)
  have w: "\<forall>i<hgt C. f i = nxt i post" by (simp add: f_def)
  have o: "\<forall>i\<ge>hgt C. nxt i (C # post) = nxt i post" by simp
  have dpre: "distinct (h # map addr_of pre)" using dist by simp
  have hpre: "\<forall>n \<in> set pre. hgt n \<le> MAX_HEIGHT" using nb by simp
  note rl = relink[where st = st and F = F and w = f and m = "hgt C"
      and old = "C # post" and new = post, OF hd l dpre hpre Fpre w o]
  have cn: "c \<notin> set (h # map addr_of (pre @ post))" using dist by (auto simp: c_def)
  have hd2: "st2 h = Some (node_of d MAX_HEIGHT (pre @ post))"
    using rl(1) cn by (simp add: st2_def)
  have Fpost: "\<forall>n \<in> set post. overlay st F (addr_of n) = st (addr_of n)"
  proof
    fix n assume n: "n \<in> set post"
    have "addr_of n \<notin> set (h # map addr_of pre)" using dist n by auto
    then have "\<forall>i. lastl i pre h \<noteq> addr_of n" using lastl_in_set[of _ pre h] by metis
    then have "\<forall>i. F (addr_of n) i = None" using uf(4,6) by (auto simp: F_def unlink_map_def)
    then show "overlay st F (addr_of n) = st (addr_of n)" by (rule overlay_same)
  qed
  have "linked st (C # post)" using l linked_appendD by blast
  then have "linked st post" by simp
  then have lp: "linked (overlay st F) post" using Fpost by (subst linked_cong[of post _ st]) auto
  have "linked (overlay st F) (pre @ post)" using lp rl(2) by (rule linked_appendI)
  then have l2: "linked st2 (pre @ post)"
    unfolding st2_def using cn by (subst linked_upd) auto
  have tr: "trim st2 h ch = Some (maxh (pre @ post))"
    using hd2 chM by (intro trim_spec) (auto simp: chm maxh_append)
  define s' where "s' = s\<lparr>store := st2, current_height := maxh (pre @ post),
      element_count := element_count s - 1\<rparr>"
  have res: "erase s v = Some (True, s')"
    using ne fp f0 sc ul tr
    by (simp add: erase_def s'_def st_def[symmetric] ch_def[symmetric] h_def[symmetric]
        st2_def[symmetric] node_of_def)
  have "inv s' (pre @ post)"
  proof (rule invI)
    show "store s' (sentinel_head s') = Some (node_of d MAX_HEIGHT (pre @ post))"
      using hd2 by (simp add: s'_def h_def)
    show "linked (store s') (pre @ post)" using l2 by (simp add: s'_def)
    show "distinct (sentinel_head s' # map addr_of (pre @ post))"
      using dist by (simp add: s'_def h_def)
    have "dom st2 = dom st - {c}" by (auto simp: st2_def dom_overlay[of st F, symmetric])
    then show "dom (store s') = set (sentinel_head s' # map addr_of (pre @ post))"
      using dm dist by (auto simp: s'_def h_def c_def)
    show "sorted_wrt (<) (map key_of (pre @ post))"
      using srt by (auto simp: ns sorted_wrt_append)
    show "\<forall>n \<in> set (pre @ post). 1 \<le> hgt n \<and> hgt n \<le> MAX_HEIGHT \<and> addr_of n < brk s'"
      using nb by (simp add: s'_def)
    show "sentinel_head s' < brk s'" using hb by (simp add: s'_def h_def)
    show "current_height s' = maxh (pre @ post)" by (simp add: s'_def)
    show "element_count s' = length (pre @ post)" using cnt by (simp add: s'_def)
  qed
  moreover have "store s' c = None" by (simp add: s'_def st2_def)
  ultimately show ?thesis using res up
    by (simp add: pre_def s'_def c_def)
qed

lemma release_chain_spec:
  assumes "linked st ns" "distinct (map addr_of ns)" "\<forall>n \<in> set ns. 1 \<le> hgt n"
  shows "release_chain st (nxt 0 ns) = Some (\<lambda>a. if a \<in> addr_of ` set ns then None else st a)"
  using assms
proof (induction ns arbitrary: st)
  case Nil
  then show ?case by (subst release_chain.simps) simp
next
  case (Cons n ns)
  let ?st = "st(addr_of n := None)"
  have f: "fwd st (addr_of n) 0 = Some (nxt 0 ns)"
    using Cons.prems by (intro fwd_node_of[where k = "key_of n" and h = "hgt n"]) auto
  have "addr_of n \<notin> addr_of ` set ns" using Cons.prems by auto
  then have "linked ?st ns = linked st ns" by (rule linked_upd)
  then have l: "linked ?st ns" using Cons.prems by simp
  have d: "distinct (map addr_of ns)" and b: "\<forall>n \<in> set ns. 1 \<le> hgt n"
    using Cons.prems by simp_all
  have "release_chain ?st (nxt 0 ns) =
      Some (\<lambda>a. if a \<in> addr_of ` set ns then None else ?st a)"
    by (rule Cons.IH[of ?st, OF l d b])
  moreover have "(\<lambda>a. if a \<in> addr_of ` set ns then None else ?st a) =
      (\<lambda>a. if a \<in> addr_of ` set (n # ns) then None else st a)"
    by (intro ext) auto
  moreover have "nxt 0 (n # ns) = Some (addr_of n)" using Cons.prems by simp
  ultimately show ?case using f by (subst release_chain.simps) simp
qed

lemma node_of_Nil: "node_of d h [] = SkipNode_new h d"
  by (simp add: node_of_def SkipNode_new_def map_replicate_const)

lemma new_inv: "inv (skip_list_new d g) []"
  by (rule invI[where d = d]) (simp_all add: skip_list_new_def node_of_Nil)

lemma clear_spec:
  assumes inv: "inv s ns"
  shows "\<exists>s'. clear s = Some s' \<and> inv s' [] \<and> sentinel_head s' = sentinel_head s \<and>
           brk s' = brk s \<and> random_engine s' = random_engine s"
proof -
  define h where "h = sentinel_head s"
  obtain d where hd: "store s h = Some (node_of d MAX_HEIGHT ns)"
    using inv by (auto simp: inv_def h_def)
  have l: "linked (store s) ns" using inv by (simp add: inv_def)
  have dist: "distinct (h # map addr_of ns)" using inv by (simp add: inv_def h_def)
  have dm: "dom (store s) = set (h # map addr_of ns)" using inv by (simp add: inv_def h_def)
  have nb: "\<forall>n \<in> set ns. 1 \<le> hgt n" using inv by (simp add: inv_def)
  have hb: "h < brk s" using inv by (simp add: inv_def h_def)
  define st1 where "st1 = (\<lambda>a. if a \<in> addr_of ` set ns then None else store s a)"
  have f0: "fwd (store s) h 0 = Some (nxt 0 ns)"
    using hd by (intro fwd_node_of[where k = d and h = MAX_HEIGHT]) (auto simp: MAX_HEIGHT_def)
  have rc: "release_chain (store s) (nxt 0 ns) = Some st1"
    unfolding st1_def using l dist nb by (intro release_chain_spec) auto
  have h1: "st1 h = Some (node_of d MAX_HEIGHT ns)" using hd dist by (auto simp: st1_def)
  define st2 where "st2 = st1(h := Some (node_of d MAX_HEIGHT []))"
  have fn: "fill_null st1 h = Some st2"
    using h1 by (simp add: fill_null_def st2_def node_of_def comp_def)
  define s' where "s' = s\<lparr>store := st2, current_height := 0, element_count := 0\<rparr>"
  have res: "clear s = Some s'"
    using f0 rc fn by (simp add: clear_def s'_def h_def[symmetric])
  have "dom st1 = {h}" using dm dist by (auto simp: st1_def dom_def)
  then have dm2: "dom st2 = {h}" by (auto simp: st2_def)
  have "inv s' []"
    by (rule invI[where d = d]) (use dm2 hb in \<open>simp_all add: s'_def h_def[symmetric] st2_def\<close>)
  then show ?thesis using res by (simp add: s'_def)
qed

lemma traverse_spec:
  assumes "linked st ns" "\<forall>n \<in> set ns. 1 \<le> hgt n"
  shows "traverse st (nxt 0 ns) = Some (map key_of ns)"
  using assms
proof (induction ns)
  case Nil
  then show ?case by (subst traverse.simps) (simp add: end_sl_def)
next
  case (Cons n ns)
  have sn: "st (addr_of n) = Some (node_of (key_of n) (hgt n) ns)" using Cons.prems by simp
  have f: "fwd st (addr_of n) 0 = Some (nxt 0 ns)"
    using sn Cons.prems by (intro fwd_node_of[where k = "key_of n" and h = "hgt n"]) auto
  have "traverse st (nxt 0 ns) = Some (map key_of ns)" using Cons by simp
  moreover have "nxt 0 (n # ns) = Some (addr_of n)" using Cons.prems by simp
  ultimately show ?case using sn f
    by (subst traverse.simps) (simp add: end_sl_def deref_def pre_incr_def node_of_def)
qed

lemma begin_spec:
  assumes "inv s ns"
  shows "begin_sl s = Some (nxt 0 ns)"
proof -
  obtain d where "store s (sentinel_head s) = Some (node_of d MAX_HEIGHT ns)"
    using assms by (auto simp: inv_def)
  then show ?thesis unfolding begin_sl_def
    by (intro fwd_node_of[where k = d and h = MAX_HEIGHT]) (auto simp: MAX_HEIGHT_def)
qed

lemma to_list_spec:
  assumes "inv s ns"
  shows "to_list s = Some (map key_of ns)"
proof -
  have "traverse (store s) (nxt 0 ns) = Some (map key_of ns)"
    using assms by (intro traverse_spec) (auto simp: inv_def)
  then show ?thesis using begin_spec[OF assms] by (simp add: to_list_def)
qed

lemma chain_spec:
  assumes "linked st ns"
  shows "chain st i (nxt i ns) = Some (map addr_of (filter (\<lambda>n. i < hgt n) ns))"
  using assms
proof (induction ns)
  case Nil
  then show ?case by (subst chain.simps) simp
next
  case (Cons n ns)
  show ?case
  proof (cases "i < hgt n")
    case True
    have f: "fwd st (addr_of n) i = Some (nxt i ns)"
      using Cons.prems True by (intro fwd_node_of[where k = "key_of n" and h = "hgt n"]) auto
    have "chain st i (nxt i ns) = Some (map addr_of (filter (\<lambda>n. i < hgt n) ns))"
      using Cons by simp
    then show ?thesis using True f by (subst chain.simps) simp
  next
    case False
    then show ?thesis using Cons by simp
  qed
qed

lemma level_chain_spec:
  assumes "inv s ns" "i < MAX_HEIGHT"
  shows "level_chain s i = Some (map addr_of (filter (\<lambda>n. i < hgt n) ns))"
proof -
  obtain d where "store s (sentinel_head s) = Some (node_of d MAX_HEIGHT ns)"
    using assms by (auto simp: inv_def)
  then have "fwd (store s) (sentinel_head s) i = Some (nxt i ns)"
    using assms(2) by (rule fwd_node_of)
  moreover have "chain (store s) i (nxt i ns) = Some (map addr_of (filter (\<lambda>n. i < hgt n) ns))"
    using assms by (intro chain_spec) (simp add: inv_def)
  ultimately show ?thesis by (simp add: level_chain_def)
qed

lemma descend_locate:
  fixes v :: "'k::linorder"
  assumes "inv s ns"
  shows "descend (store s) v (current_height s) (sentinel_head s) =
           Some (lastl 0 (lower v ns) (sentinel_head s))"
proof -
  have "\<forall>n \<in> set ns. hgt n \<le> MAX_HEIGHT" using assms by (simp add: inv_def)
  then have "maxh ns \<le> MAX_HEIGHT" by (rule maxh_le)
  then have "current_height s \<le> length (replicate MAX_HEIGHT (None::ptr))"
    using assms by (simp add: inv_def)
  then have "descend (store s) v (current_height s) (sentinel_head s) =
      map_option fst (find_path (store s) v (current_height s) (sentinel_head s)
        (replicate MAX_HEIGHT None))"
    by (rule descend_find_path)
  then show ?thesis using locate(1)[OF assms, of v] by auto
qed

lemma contains_spec:
  fixes v :: "'k::linorder"
  assumes "inv s ns"
  shows "contains s v = Some (v \<in> key_of ` set ns)"
  using descend_locate[OF assms, of v] locate(2)[OF assms, of v] key_is_upper[OF assms, of v]
  by (simp add: contains_def)

lemma find_spec:
  fixes v :: "'k::linorder"
  assumes "inv s ns"
  shows "find_sl s v = Some (if v \<in> key_of ` set ns then nxt 0 (upper v ns) else end_sl)"
  using descend_locate[OF assms, of v] locate(2)[OF assms, of v] key_is_upper[OF assms, of v]
  by (simp add: find_sl_def)

subsection \<open>Sequences of operations\<close>

lemma keys_insert_cell:
  "key_of ` set (lower v ns @ Cell a v nh # upper v ns) = key_of ` set ns \<union> {v}"
proof -
  have "set ns = set (lower v ns) \<union> set (upper v ns)"
    using lower_upper[of v ns] by (metis set_append)
  then show ?thesis by auto
qed

lemma keys_erase_cell:
  fixes v :: "'k::linorder"
  assumes srt: "sorted_wrt (<) (map key_of ns)" and vin: "v \<in> key_of ` set ns"
  shows "key_of ` set (lower v ns @ tl (upper v ns)) = key_of ` set ns - {v}"
proof -
  obtain C post where up: "upper v ns = C # post" and kC: "key_of C = v"
    using upper_hd_iff[OF srt, of v] vin by blast
  have ns: "ns = lower v ns @ C # post" using lower_upper[of v ns] up by simp
  have "sorted_wrt (<) (map key_of (lower v ns @ C # post))" using srt ns by simp
  then have "\<forall>n \<in> set post. v < key_of n" using kC by (auto simp: sorted_wrt_append)
  moreover have "\<forall>n \<in> set (lower v ns). key_of n < v" using lower_lt by blast
  moreover have "set ns = set (lower v ns) \<union> {C} \<union> set post" by (subst ns) auto
  ultimately show ?thesis using up kC by auto
qed

lemma step_inv:
  fixes s :: "'k::linorder skip_list"
  assumes "inv s ns"
  shows "\<exists>s' ns'. step s x = Some s' \<and> inv s' ns' \<and>
           key_of ` set ns' = keys_after (key_of ` set ns) [x]"
proof (cases x)
  case (Insert v)
  show ?thesis
  proof (cases "v \<in> key_of ` set ns")
    case True
    then have "step s x = Some s" using insert_present[OF assms] Insert by simp
    moreover have "key_of ` set ns = keys_after (key_of ` set ns) [x]" using True Insert by auto
    ultimately show ?thesis using assms by blast
  next
    case False
    define ns' where "ns' = lower v ns @
      Cell (brk s) v (fst (generateRandomHeight (random_engine s))) # upper v ns"
    obtain s' where s': "insert_sl s v = Some (True, s')" "inv s' ns'"
      using insert_absent[OF assms False] unfolding ns'_def by blast
    have "step s x = Some s'" using s'(1) Insert by simp
    moreover have "key_of ` set ns' = keys_after (key_of ` set ns) [x]"
      unfolding ns'_def keys_insert_cell using Insert by simp
    ultimately show ?thesis using s'(2) by blast
  qed
next
  case (Erase v)
  show ?thesis
  proof (cases "v \<in> key_of ` set ns")
    case True
    have srt: "sorted_wrt (<) (map key_of ns)" using assms by (simp add: inv_def)
    define ns' where "ns' = lower v ns @ tl (upper v ns)"
    obtain s' where s': "erase s v = Some (True, s')" "inv s' ns'"
      using erase_present[OF assms True] unfolding ns'_def by blast
    have "step s x = Some s'" using s'(1) Erase by simp
    moreover have "key_of ` set ns' = keys_after (key_of ` set ns) [x]"
      unfolding ns'_def keys_erase_cell[OF srt True] using Erase by simp
    ultimately show ?thesis using s'(2) by blast
  next
    case False
    then have "step s x = Some s" using erase_absent[OF assms] Erase by simp
    moreover have "key_of ` set ns = keys_after (key_of ` set ns) [x]" using False Erase by auto
    ultimately show ?thesis using assms by blast
  qed
next
  case Clear
  obtain s' where "clear s = Some s'" "inv s' []" using clear_spec[OF assms] by blast
  then have "step s x = Some s' \<and> inv s' [] \<and> key_of ` set [] = keys_after (key_of ` set ns) [x]"
    using Clear by simp
  then show ?thesis by blast
qed

lemma keys_after_Cons: "keys_after K (x # xs) = keys_after (keys_after K [x]) xs"
  by (cases x) simp_all

lemma run_inv:
  fixes s :: "'k::linorder skip_list"
  assumes "inv s ns"
  shows "\<exists>s' ns'. run s ops = Some s' \<and> inv s' ns' \<and>
           key_of ` set ns' = keys_after (key_of ` set ns) ops"
  using assms
proof (induction ops arbitrary: s ns)
  case Nil
  then show ?case by auto
next
  case (Cons x ops)
  obtain s1 ns1 where 1: "step s x = Some s1" "inv s1 ns1"
      "key_of ` set ns1 = keys_after (key_of ` set ns) [x]"
    using step_inv[OF Cons.prems] by blast
  obtain s2 ns2 where 2: "run s1 ops = Some s2" "inv s2 ns2"
      "key_of ` set ns2 = keys_after (key_of ` set ns1) ops"
    using Cons.IH[OF 1(2)] by blast
  have "run s (x # ops) = Some s2" using 1(1) 2(1) by simp
  moreover have "key_of ` set ns2 = keys_after (key_of ` set ns) (x # ops)"
    using 1(3) 2(3) keys_after_Cons[of "key_of ` set ns" x ops] by simp
  ultimately show ?case using 2(2) by blast
qed

lemma reach_inv:
  fixes d :: "'k::linorder"
  shows "\<exists>s ns. run (skip_list_new d g) ops = Some s \<and> inv s ns \<and>
           key_of ` set ns = keys_after {} ops"
  using run_inv[OF new_inv, of d g ops] by simp

subsection \<open>States of a container, and the height loop\<close>

lemma reachD:
  fixes d :: "'k::linorder"
  assumes "run (skip_list_new d g) ops = Some s"
  shows "\<exists>ns. inv s ns \<and> key_of ` set ns = keys_after {} ops"
  using reach_inv[of d g ops] assms by auto

lemma height_loop_spec:
  "h0 \<le> fst (height_loop g h0) \<and>
   (\<forall>j. j < fst (height_loop g h0) - h0 \<longrightarrow> g j < promotion_probability) \<and>
   (MAX_HEIGHT \<le> fst (height_loop g h0) \<or>
      \<not> g (fst (height_loop g h0) - h0) < promotion_probability) \<and>
   snd (height_loop g h0) = (\<lambda>n. g (Suc (n + (fst (height_loop g h0) - h0))))"
proof (induction g h0 rule: height_loop.induct)
  case (1 g height)
  show ?case
  proof (cases "g 0 < promotion_probability \<and> height < MAX_HEIGHT")
    case True
    let ?g = "\<lambda>n. g (Suc n)"
    let ?r = "height_loop ?g (Suc height)"
    have e: "height_loop g height = ?r" using True by (simp add: height_loop_go)
    have ih: "Suc height \<le> fst ?r"
      "\<forall>j. j < fst ?r - Suc height \<longrightarrow> g (Suc j) < promotion_probability"
      "MAX_HEIGHT \<le> fst ?r \<or> \<not> g (Suc (fst ?r - Suc height)) < promotion_probability"
      "snd ?r = (\<lambda>n. g (Suc (Suc (n + (fst ?r - Suc height)))))"
      using "1.IH"[OF True] by auto
    have k: "fst ?r - height = Suc (fst ?r - Suc height)" using ih(1) by simp
    have "\<forall>j. j < fst ?r - height \<longrightarrow> g j < promotion_probability"
    proof (intro allI impI)
      fix j assume "j < fst ?r - height"
      then show "g j < promotion_probability" using ih(2) True k by (cases j) auto
    qed
    then show ?thesis unfolding e using ih k by auto
  next
    case False
    have e: "height_loop g height = (height, \<lambda>n. g (Suc n))"
      using False by (rule height_loop_stop)
    show ?thesis unfolding e using False by auto
  qed
qed

lemma inv_empty: "inv s ns \<Longrightarrow> empty_sl s \<Longrightarrow> ns = []"
  by (simp add: inv_def empty_sl_def)

lemma head_links:
  assumes "inv s ns" "i < MAX_HEIGHT"
  shows "fwd (store s) (sentinel_head s) i = Some (nxt i ns)"
proof -
  obtain d where "store s (sentinel_head s) = Some (node_of d MAX_HEIGHT ns)"
    using assms by (auto simp: inv_def)
  then show ?thesis using assms(2) by (rule fwd_node_of)
qed

lemma found_deref:
  fixes v :: "'k::linorder"
  assumes "inv s ns" "v \<in> key_of ` set ns"
  shows "nxt 0 (upper v ns) \<noteq> end_sl \<and> deref (store s) (nxt 0 (upper v ns)) = Some v"
  using key_is_upper[OF assms(1), of v] assms(2)
  by (auto simp: key_is_def deref_def end_sl_def split: option.splits)

lemma maxh_Max: "maxh ns = Max (insert 0 (hgt ` set ns))"
proof (induction ns)
  case Nil
  then show ?case by simp
next
  case (Cons n ns)
  have "Max (insert 0 (hgt ` set (n # ns))) = Max (insert (hgt n) (insert 0 (hgt ` set ns)))"
    by (simp add: insert_commute)
  also have "\<dots> = max (hgt n) (Max (insert 0 (hgt ` set ns)))"
    by (rule Max_insert) auto
  finally show ?case using Cons by simp
qed

lemma node_height_cell:
  assumes "inv s ns" "n \<in> set ns"
  shows "node_height (store s) (addr_of n) = hgt n"
proof -
  have "linked (store s) ns" using assms by (simp add: inv_def)
  then obtain q where "store s (addr_of n) = Some (node_of (key_of n) (hgt n) q)"
    using linked_mem assms(2) by blast
  then show ?thesis by (simp add: node_height_def node_of_def)
qed

lemma level0_chain:
  assumes "inv s ns"
  shows "level_chain s 0 = Some (map addr_of ns)"
proof -
  have "\<forall>n \<in> set ns. 0 < hgt n" using assms by (auto simp: inv_def)
  then have "filter (\<lambda>n. 0 < hgt n) ns = ns" by (simp add: filter_id_conv)
  then show ?thesis using level_chain_spec[OF assms, of 0] by (simp add: MAX_HEIGHT_def)
qed

lemma inv_keys_sorted:
  fixes s :: "'k::linorder skip_list"
  assumes "inv s ns"
  shows "sorted_wrt (<) (map key_of ns)" "distinct (map key_of ns)"
proof -
  show "sorted_wrt (<) (map key_of ns)" using assms by (simp add: inv_def)
  then show "distinct (map key_of ns)" by (simp add: strict_sorted_iff)
qed

lemma inv_targets:
  assumes inv: "inv s ns" and a: "store s a = Some n" and p: "Some c \<in> set (forward n)"
  shows "c \<in> addr_of ` set ns"
proof -
  have "a \<in> dom (store s)" using a by auto
  then have "a = sentinel_head s \<or> a \<in> addr_of ` set ns" using inv by (auto simp: inv_def)
  then obtain k hh q where "store s a = Some (node_of k hh q)" and q: "set q \<subseteq> set ns"
  proof
    assume "a = sentinel_head s"
    then obtain d where "store s a = Some (node_of d MAX_HEIGHT ns)" using inv by (auto simp: inv_def)
    then show ?thesis using that[of d MAX_HEIGHT ns] by simp
  next
    assume "a \<in> addr_of ` set ns"
    then obtain m where m: "m \<in> set ns" "a = addr_of m" by auto
    then obtain p q where pq: "ns = p @ m # q" by (meson split_list)
    have "linked (store s) (p @ m # q)" using inv pq by (simp add: inv_def)
    then have "store s a = Some (node_of (key_of m) (hgt m) q)" using m(2) linked_mid by blast
    then show ?thesis using that[of "key_of m" "hgt m" q] pq by auto
  qed
  then have "forward n = map (\<lambda>i. nxt i q) [0 ..< hh]" using a by (simp add: node_of_def)
  then obtain i where "nxt i q = Some c" using p by auto
  then show ?thesis using nxt_Some_mem[of i q c] q by auto
qed

section \<open>The claims\<close>

text \<open>
  C1.  After every sequence of insert, erase and clear operations on a fresh container,
  the sequence runs without undefined behaviour, the iteration from \<open>begin()\<close> to
  \<open>end()\<close> returns, its keys are strictly increasing (so none is repeated), and they
  are exactly the keys inserted and not erased or cleared since.
\<close>

theorem iteration_sorted_keys:
  fixes d :: "'k::linorder"
  shows "\<exists>s ks. run (skip_list_new d g) ops = Some s \<and> to_list s = Some ks \<and>
           sorted_wrt (<) ks \<and> distinct ks \<and> set ks = keys_after {} ops"
proof -
  obtain s ns where r: "run (skip_list_new d g) ops = Some s" and inv: "inv s ns"
    and k: "key_of ` set ns = keys_after {} ops"
    using reach_inv[of d g ops] by blast
  have "to_list s = Some (map key_of ns)" by (rule to_list_spec[OF inv])
  moreover have "set (map key_of ns) = keys_after {} ops" using k by simp
  ultimately show ?thesis using r inv_keys_sorted[OF inv] by blast
qed

theorem iteration_sorted_keys_witness:
  "keys_after {} [Insert 20, Insert 10, Insert 30, Insert 10, Erase 20, Insert (25::int)]
     = {10, 25, 30} \<and>
   Option.bind (run (skip_list_new (0::int) example_draws)
      [Insert 20, Insert 10, Insert 30, Insert 10, Erase 20, Insert 25]) to_list
     = Some [10, 25, 30]"
proof -
  let ?ops = "[Insert 20, Insert 10, Insert 30, Insert 10, Erase 20, Insert (25::int)]"
  have k: "keys_after {} ?ops = {10, 25, 30}" by auto
  have e: "Option.bind (run (skip_list_new (0::int) example_draws) ?ops) to_list
      = Some [10, 25, 30]" by code_simp
  obtain s ks where "run (skip_list_new (0::int) example_draws) ?ops = Some s"
      "to_list s = Some ks" "set ks = keys_after {} ?ops"
    using iteration_sorted_keys[of 0 example_draws ?ops] by blast
  then show ?thesis using k e by simp
qed

text \<open>
  C2.  Take a reachable state in which \<open>erase(v)\<close> finds its node: the search returns the
  update path \<open>up\<close>, and the level-0 successor \<open>c\<close> of the final position holds the key \<open>v\<close>.
  Then the loop of the source, which runs over the levels below \<open>current_height\<close> and
  breaks at the first level whose update-path link is not \<open>c\<close>, returns the same store
  as the loop without the test run over the levels \<open>0..node_height-1\<close> of the node; in
  that store exactly the links \<open>up[i]->forward[i]\<close> with \<open>i\<close> below the node's height
  have changed, to \<open>c->forward[i]\<close>.  \<open>erase\<close> then returns true, releases \<open>c\<close>, and
  afterwards \<open>c\<close> is on the chain of no level and no live node points to it.
\<close>

theorem unlink_break_equivalent:
  fixes d :: "'k::linorder"
  assumes "run (skip_list_new d g) ops = Some s"
    and "find_path (store s) v (current_height s) (sentinel_head s)
           (replicate MAX_HEIGHT None) = Some (cur, up)"
    and "fwd (store s) cur 0 = Some (Some c)"
    and "store s c = Some nd" and "val nd = v"
  shows "\<exists>st s'. unlink (store s) up c [0 ..< current_height s] = Some st \<and>
           unlink_all (store s) up c [0 ..< length (forward nd)] = Some st \<and>
           (\<forall>a i. fwd st a i =
              (if i < length (forward nd) \<and> up ! i = Some a then fwd (store s) c i
               else fwd (store s) a i)) \<and>
           erase s v = Some (True, s') \<and> store s' = st(c := None) \<and>
           (\<forall>i<MAX_HEIGHT. \<exists>as. level_chain s' i = Some as \<and> c \<notin> set as) \<and>
           (\<forall>a n. store s' a = Some n \<longrightarrow> Some c \<notin> set (forward n))"
proof -
  obtain ns where inv: "inv s ns" using reachD[OF assms(1)] by blast
  have srt: "sorted_wrt (<) (map key_of ns)" using inv by (simp add: inv_def)
  have nb: "\<forall>n \<in> set ns. 1 \<le> hgt n" using inv by (simp add: inv_def)
  note fp = assms(2)
  have cur: "cur = lastl 0 (lower v ns) (sentinel_head s)"
    using locate(1)[OF inv, of v] fp by auto
  have "fwd (store s) cur 0 = Some (nxt 0 (upper v ns))"
    using locate(2)[OF inv, of v] cur by simp
  then have nx: "nxt 0 (upper v ns) = Some c" using assms(3) by simp
  then obtain C post where up: "upper v ns = C # post" by (cases "upper v ns") auto
  have Cin: "C \<in> set ns" using up lower_upper[of v ns] by (metis in_set_conv_decomp)
  then have c: "c = addr_of C" using nx up nb by auto
  have ns: "ns = lower v ns @ C # post" using lower_upper[of v ns] up by simp
  have "linked (store s) (lower v ns @ C # post)" using inv ns by (simp add: inv_def)
  then have "store s c = Some (node_of (key_of C) (hgt C) post)" using c linked_mid by blast
  then have nd: "nd = node_of (key_of C) (hgt C) post" using assms(4) by simp
  then have kC: "key_of C = v" and hC: "length (forward nd) = hgt C"
    using assms(5) by (simp_all add: node_of_def)
  have vin: "v \<in> key_of ` set ns" using Cin kC by auto
  define f where "f = (\<lambda>i. nxt i post)"
  define F where "F = unlink_map up f (hgt C)"
  note uf = unlink_facts[OF inv up fp, folded c]
  have ul: "unlink (store s) up c [0 ..< current_height s] = Some (overlay (store s) F)"
    using unlink_spec[where st = "store s" and up = up and c = c and f = f and hc = "hgt C"
        and ch = "current_height s" and m = 0] uf(1,2,3,4)
    by (simp add: unlink_map_0 overlay_empty F_def f_def)
  have ua: "unlink_all (store s) up c [0 ..< hgt C] = Some (overlay (store s) F)"
    using unlink_all_spec[where st = "store s" and up = up and c = c and f = f and hc = "hgt C"
        and m = 0] uf(1,2)
    by (simp add: unlink_map_0 overlay_empty F_def f_def)
  have cf: "\<forall>a i. fwd (overlay (store s) F) a i =
      (if i < hgt C \<and> up ! i = Some a then fwd (store s) c i else fwd (store s) a i)"
  proof (intro allI)
    fix a i
    show "fwd (overlay (store s) F) a i =
      (if i < hgt C \<and> up ! i = Some a then fwd (store s) c i else fwd (store s) a i)"
    proof (cases "i < hgt C \<and> up ! i = Some a")
      case True
      then have "fwd (store s) a i = Some (Some c)" "fwd (store s) c i = Some (f i)"
        using uf(1,2) by (auto simp: f_def)
      then show ?thesis using True by (simp add: fwd_overlay F_def unlink_map_def)
    next
      case False
      then have "F a i = None" by (auto simp: F_def unlink_map_def)
      then show ?thesis using False by (cases "fwd (store s) a i") (auto simp: fwd_overlay)
    qed
  qed
  obtain s' where e: "erase s v = Some (True, s')"
    and inv': "inv s' (lower v ns @ tl (upper v ns))"
    using erase_present[OF inv vin] by blast
  have ne: "\<not> empty_sl s" using inv Cin by (auto simp: inv_def empty_sl_def)
  have "store s' = (overlay (store s) F)(c := None)"
    using e ne fp assms(3,4,5) ul cur
    by (auto simp: erase_def split: option.splits)
  moreover have cn: "c \<notin> addr_of ` set (lower v ns @ tl (upper v ns))"
  proof -
    have "distinct (map addr_of (lower v ns @ C # post))" using inv ns by (simp add: inv_def)
    then show ?thesis using up c by auto
  qed
  have "\<forall>i<MAX_HEIGHT. \<exists>as. level_chain s' i = Some as \<and> c \<notin> set as"
  proof (intro allI impI)
    fix i assume "i < MAX_HEIGHT"
    then have "level_chain s' i =
        Some (map addr_of (filter (\<lambda>n. i < hgt n) (lower v ns @ tl (upper v ns))))"
      by (rule level_chain_spec[OF inv'])
    moreover have "c \<notin> set (map addr_of (filter (\<lambda>n. i < hgt n) (lower v ns @ tl (upper v ns))))"
      using cn by auto
    ultimately show "\<exists>as. level_chain s' i = Some as \<and> c \<notin> set as" by blast
  qed
  moreover have "\<forall>a n. store s' a = Some n \<longrightarrow> Some c \<notin> set (forward n)"
    using inv_targets[OF inv'] cn by blast
  ultimately show ?thesis using ul ua cf e hC by auto
qed

theorem unlink_break_equivalent_witness:
  "run (skip_list_new (0::int) example_draws) [Insert 3, Insert 1, Insert 2]
     = Some (the (run (skip_list_new (0::int) example_draws) [Insert 3, Insert 1, Insert 2])) \<and>
   find_path (store (the (run (skip_list_new (0::int) example_draws) [Insert 3, Insert 1, Insert 2])))
     1 (current_height (the (run (skip_list_new (0::int) example_draws) [Insert 3, Insert 1, Insert 2])))
     (sentinel_head (the (run (skip_list_new (0::int) example_draws) [Insert 3, Insert 1, Insert 2])))
     (replicate MAX_HEIGHT None) = Some (0, Some 0 # Some 0 # replicate 14 None) \<and>
   fwd (store (the (run (skip_list_new (0::int) example_draws) [Insert 3, Insert 1, Insert 2])))
     0 0 = Some (Some 2) \<and>
   map_option val (store (the (run (skip_list_new (0::int) example_draws)
     [Insert 3, Insert 1, Insert 2])) 2) = Some 1 \<and>
   node_height (store (the (run (skip_list_new (0::int) example_draws)
     [Insert 3, Insert 1, Insert 2]))) 2 = 1 \<and>
   current_height (the (run (skip_list_new (0::int) example_draws) [Insert 3, Insert 1, Insert 2]))
     = 2 \<and>
   unlink (store (the (run (skip_list_new (0::int) example_draws) [Insert 3, Insert 1, Insert 2])))
     (Some 0 # Some 0 # replicate 14 None) 2 [0 ..< 2]
     = unlink_all (store (the (run (skip_list_new (0::int) example_draws)
         [Insert 3, Insert 1, Insert 2]))) (Some 0 # Some 0 # replicate 14 None) 2 [0 ..< 1] \<and>
   map_option fst (erase (the (run (skip_list_new (0::int) example_draws)
     [Insert 3, Insert 1, Insert 2])) 1) = Some True"
proof -
  define s0 where "s0 = the (run (skip_list_new (0::int) example_draws)
    [Insert 3, Insert 1, Insert 2])"
  let ?up = "Some 0 # Some 0 # replicate 14 (None::ptr)"
  have "\<not> Option.is_none (run (skip_list_new (0::int) example_draws)
    [Insert 3, Insert 1, Insert 2])" by code_simp
  then have r: "run (skip_list_new (0::int) example_draws) [Insert 3, Insert 1, Insert 2] = Some s0"
    unfolding s0_def Option.is_none_def by (rule option.collapse[symmetric])
  have fp: "find_path (store s0) 1 (current_height s0) (sentinel_head s0)
      (replicate MAX_HEIGHT None) = Some (0, ?up)" unfolding s0_def by code_simp
  have f0: "fwd (store s0) 0 0 = Some (Some 2)" unfolding s0_def by code_simp
  have "\<not> Option.is_none (store s0 2)" unfolding s0_def by code_simp
  then have nd: "store s0 2 = Some (the (store s0 2))"
    unfolding Option.is_none_def by (rule option.collapse[symmetric])
  have v: "val (the (store s0 2)) = 1" unfolding s0_def by code_simp
  have mv: "map_option val (store s0 2) = Some 1" unfolding s0_def by code_simp
  have len: "length (forward (the (store s0 2))) = 1" unfolding s0_def by code_simp
  have ch: "current_height s0 = 2" unfolding s0_def by code_simp
  have nh: "node_height (store s0) 2 = 1" unfolding s0_def by code_simp
  obtain st s' where o:
      "unlink (store s0) ?up 2 [0 ..< current_height s0] = Some st"
      "unlink_all (store s0) ?up 2 [0 ..< length (forward (the (store s0 2)))] = Some st"
      "erase s0 1 = Some (True, s')"
    using unlink_break_equivalent[OF r fp f0 nd v] by blast
  have u: "unlink (store s0) ?up 2 [0 ..< 2] = unlink_all (store s0) ?up 2 [0 ..< 1]"
    using o(1,2) unfolding ch len by (rule trans[OF _ sym])
  have e: "map_option fst (erase s0 1) = Some True" unfolding o(3) by simp
  show ?thesis unfolding s0_def[symmetric] using r fp f0 mv nh ch u e by blast
qed

text \<open>
  C3.  As the claim states it, ``for every state and key, inserting the same key twice
  changes size by exactly 1 in total'' fails in a state that already holds the key:
  both calls return false and the size does not change.  After \<open>insert(5)\<close> the size is
  1, and after two more \<open>insert(5)\<close> it is still 1.
\<close>

theorem insert_twice_counterexample:
  "map_option size_sl (run (skip_list_new (0::int) example_draws) [Insert 5]) = Some 1 \<and>
   map_option size_sl (run (skip_list_new (0::int) example_draws) [Insert 5, Insert 5, Insert 5])
     = Some 1"
  by code_simp

text \<open>
  C3, amended.  In every reachable state \<open>insert(v)\<close> returns, and it returns true
  exactly when \<open>v\<close> was not among the keys before the call.  A second \<open>insert(v)\<close>
  right after it returns false and changes nothing, so the two calls together change
  the size by 1 when \<open>v\<close> was absent and by 0 when it was present.  An insert that
  returns false returns the state unchanged, and the keys after the call are the keys
  before it with \<open>v\<close> added, none of them twice.
\<close>

theorem insert_new_or_duplicate:
  fixes d :: "'k::linorder"
  assumes "run (skip_list_new d g) ops = Some s"
  shows "\<exists>ks b1 s1 ks1. to_list s = Some ks \<and> insert_sl s v = Some (b1, s1) \<and>
           b1 = (v \<notin> set ks) \<and> insert_sl s1 v = Some (False, s1) \<and>
           size_sl s1 = size_sl s + (if v \<in> set ks then 0 else 1) \<and>
           (b1 \<or> s1 = s) \<and>
           to_list s1 = Some ks1 \<and> distinct ks1 \<and> set ks1 = insert v (set ks)"
proof -
  obtain ns where inv: "inv s ns" using reachD[OF assms] by blast
  have tl: "to_list s = Some (map key_of ns)" by (rule to_list_spec[OF inv])
  show ?thesis
  proof (cases "v \<in> key_of ` set ns")
    case True
    have i: "insert_sl s v = Some (False, s)" by (rule insert_present[OF inv True])
    have "to_list s = Some (map key_of ns) \<and> insert_sl s v = Some (False, s) \<and>
        False = (v \<notin> set (map key_of ns)) \<and> insert_sl s v = Some (False, s) \<and>
        size_sl s = size_sl s + (if v \<in> set (map key_of ns) then 0 else 1) \<and>
        (False \<or> s = s) \<and>
        to_list s = Some (map key_of ns) \<and> distinct (map key_of ns) \<and>
        set (map key_of ns) = insert v (set (map key_of ns))"
      using tl i True inv_keys_sorted(2)[OF inv] by auto
    then show ?thesis by blast
  next
    case False
    define ns1 where "ns1 = lower v ns @
      Cell (brk s) v (fst (generateRandomHeight (random_engine s))) # upper v ns"
    obtain s1 where i: "insert_sl s v = Some (True, s1)" and inv1: "inv s1 ns1"
      using insert_absent[OF inv False] unfolding ns1_def by blast
    have k1: "key_of ` set ns1 = key_of ` set ns \<union> {v}"
      unfolding ns1_def by (rule keys_insert_cell)
    then have i2: "insert_sl s1 v = Some (False, s1)" by (intro insert_present[OF inv1]) simp
    have "length ns1 = length (lower v ns @ upper v ns) + 1" by (simp add: ns1_def)
    then have sz: "size_sl s1 = size_sl s + 1"
      using inv inv1 by (simp add: inv_def size_sl_def lower_upper)
    have tl1: "to_list s1 = Some (map key_of ns1)" by (rule to_list_spec[OF inv1])
    have "to_list s = Some (map key_of ns) \<and> insert_sl s v = Some (True, s1) \<and>
        True = (v \<notin> set (map key_of ns)) \<and> insert_sl s1 v = Some (False, s1) \<and>
        size_sl s1 = size_sl s + (if v \<in> set (map key_of ns) then 0 else 1) \<and>
        (True \<or> s1 = s) \<and>
        to_list s1 = Some (map key_of ns1) \<and> distinct (map key_of ns1) \<and>
        set (map key_of ns1) = insert v (set (map key_of ns))"
      using tl i False i2 sz tl1 inv_keys_sorted(2)[OF inv1] k1 by auto
    then show ?thesis by blast
  qed
qed

theorem insert_new_or_duplicate_witness:
  "run (skip_list_new (0::int) example_draws) [Insert 50]
     = Some (the (run (skip_list_new (0::int) example_draws) [Insert 50])) \<and>
   to_list (the (run (skip_list_new (0::int) example_draws) [Insert 50])) = Some [50] \<and>
   map_option fst (insert_sl (the (run (skip_list_new (0::int) example_draws) [Insert 50])) 60)
     = Some True \<and>
   size_sl (snd (the (insert_sl (the (run (skip_list_new (0::int) example_draws) [Insert 50])) 60)))
     = 2 \<and>
   insert_sl (the (run (skip_list_new (0::int) example_draws) [Insert 50])) 50
     = Some (False, the (run (skip_list_new (0::int) example_draws) [Insert 50]))"
proof -
  let ?r = "run (skip_list_new (0::int) example_draws) [Insert 50]"
  have "\<not> Option.is_none ?r" by code_simp
  then have r: "?r = Some (the ?r)" by (simp add: Option.is_none_def)
  have t: "to_list (the ?r) = Some [50]" and z: "size_sl (the ?r) = 1" by code_simp+
  obtain b1 s1 where 1: "insert_sl (the ?r) 60 = Some (b1, s1)" "b1 = (60 \<notin> set [50::int])"
      "size_sl s1 = size_sl (the ?r) + (if 60 \<in> set [50::int] then 0 else 1)"
    using insert_new_or_duplicate[OF r, of 60] t by auto
  obtain b2 s2 where 2: "insert_sl (the ?r) 50 = Some (b2, s2)" "b2 = (50 \<notin> set [50::int])"
      "b2 \<or> s2 = the ?r"
    using insert_new_or_duplicate[OF r, of 50] t by auto
  show ?thesis using r t z 1 2 by simp
qed

text \<open>
  C4.  In every reachable state \<open>erase(k)\<close> returns.  It returns true exactly when
  \<open>contains(k)\<close> was true; then \<open>contains(k)\<close> is false afterwards and \<open>size()\<close> has gone
  down by exactly 1.  When it returns false, the whole state is the one before the call.
\<close>

theorem erase_consistent:
  fixes d :: "'k::linorder"
  assumes "run (skip_list_new d g) ops = Some s"
  shows "\<exists>b s'. erase s k = Some (b, s') \<and> contains s k = Some b \<and>
           (if b then contains s' k = Some False \<and> size_sl s' + 1 = size_sl s
            else s' = s)"
proof -
  obtain ns where inv: "inv s ns" using reachD[OF assms] by blast
  show ?thesis
  proof (cases "k \<in> key_of ` set ns")
    case True
    have srt: "sorted_wrt (<) (map key_of ns)" using inv by (simp add: inv_def)
    obtain s' where e: "erase s k = Some (True, s')" and inv': "inv s' (lower k ns @ tl (upper k ns))"
      using erase_present[OF inv True] by blast
    have "contains s' k = Some False"
      using contains_spec[OF inv', of k] keys_erase_cell[OF srt True] by simp
    moreover have "upper k ns \<noteq> []" using upper_hd_iff[OF srt, of k] True by auto
    then have "length (lower k ns @ tl (upper k ns)) + 1 = length (lower k ns @ upper k ns)"
      by (cases "upper k ns") simp_all
    then have "size_sl s' + 1 = size_sl s"
      using inv inv' by (simp add: inv_def size_sl_def lower_upper)
    moreover have "contains s k = Some True" using contains_spec[OF inv, of k] True by simp
    ultimately have "erase s k = Some (True, s') \<and> contains s k = Some True \<and>
        (if True then contains s' k = Some False \<and> size_sl s' + 1 = size_sl s else s' = s)"
      using e by simp
    then show ?thesis by blast
  next
    case False
    have "erase s k = Some (False, s)" by (rule erase_absent[OF inv False])
    moreover have "contains s k = Some False" using contains_spec[OF inv, of k] False by simp
    ultimately have "erase s k = Some (False, s) \<and> contains s k = Some False \<and>
        (if False then contains s k = Some False \<and> size_sl s + 1 = size_sl s else s = s)"
      by simp
    then show ?thesis by blast
  qed
qed

theorem erase_consistent_witness:
  "run (skip_list_new (0::int) example_draws) [Insert 10, Insert 20, Insert 30]
     = Some (the (run (skip_list_new (0::int) example_draws) [Insert 10, Insert 20, Insert 30])) \<and>
   map_option fst (erase (the (run (skip_list_new (0::int) example_draws)
     [Insert 10, Insert 20, Insert 30])) 20) = Some True \<and>
   map_option fst (erase (the (run (skip_list_new (0::int) example_draws)
     [Insert 10, Insert 20, Insert 30])) 99) = Some False \<and>
   contains (snd (the (erase (the (run (skip_list_new (0::int) example_draws)
     [Insert 10, Insert 20, Insert 30])) 20))) 20 = Some False \<and>
   size_sl (snd (the (erase (the (run (skip_list_new (0::int) example_draws)
     [Insert 10, Insert 20, Insert 30])) 20))) = 2 \<and>
   snd (the (erase (the (run (skip_list_new (0::int) example_draws)
     [Insert 10, Insert 20, Insert 30])) 99))
     = the (run (skip_list_new (0::int) example_draws) [Insert 10, Insert 20, Insert 30])"
proof -
  let ?r = "run (skip_list_new (0::int) example_draws) [Insert 10, Insert 20, Insert 30]"
  have "\<not> Option.is_none ?r" by code_simp
  then have r: "?r = Some (the ?r)" by (simp add: Option.is_none_def)
  have t: "map_option fst (erase (the ?r) 20) = Some True"
    and f: "map_option fst (erase (the ?r) 99) = Some False"
    and z: "size_sl (the ?r) = 3"
    by code_simp+
  obtain b s' where 1: "erase (the ?r) 20 = Some (b, s')"
      "if b then contains s' 20 = Some False \<and> size_sl s' + 1 = size_sl (the ?r) else s' = the ?r"
    using erase_consistent[OF r, of 20] by blast
  obtain b2 s2 where 2: "erase (the ?r) 99 = Some (b2, s2)"
      "if b2 then contains s2 99 = Some False \<and> size_sl s2 + 1 = size_sl (the ?r) else s2 = the ?r"
    using erase_consistent[OF r, of 99] by blast
  have "b" using 1(1) t by simp
  moreover have "\<not> b2" using 2(1) f by simp
  ultimately show ?thesis using r t f z 1 2 by simp
qed

text \<open>
  C5.  After construction and after every sequence of insert, erase and clear
  operations, \<open>current_height\<close> is the largest height of a node of the level-0 chain,
  and 0 when the chain is empty; the sentinel has a successor at exactly the levels
  below \<open>current_height\<close>.
\<close>

theorem current_height_is_max:
  fixes d :: "'k::linorder"
  shows "\<exists>s as. run (skip_list_new d g) ops = Some s \<and> level_chain s 0 = Some as \<and>
           current_height s = Max (insert 0 (node_height (store s) ` set as)) \<and>
           (\<forall>i<MAX_HEIGHT. (fwd (store s) (sentinel_head s) i = Some None)
                            = (current_height s \<le> i))"
proof -
  obtain s ns where r: "run (skip_list_new d g) ops = Some s" and inv: "inv s ns"
    using reach_inv[of d g ops] by blast
  have lc: "level_chain s 0 = Some (map addr_of ns)" by (rule level0_chain[OF inv])
  have "node_height (store s) ` set (map addr_of ns) = hgt ` set ns"
    using node_height_cell[OF inv] by (auto simp: image_iff)
  moreover have ch: "current_height s = maxh ns" using inv by (simp add: inv_def)
  ultimately have m: "current_height s = Max (insert 0 (node_height (store s) ` set (map addr_of ns)))"
    by (simp add: maxh_Max)
  have "\<forall>i<MAX_HEIGHT. (fwd (store s) (sentinel_head s) i = Some None) = (current_height s \<le> i)"
    using head_links[OF inv] by (simp add: ch nxt_None_maxh)
  then show ?thesis using r lc m by blast
qed

theorem current_height_is_max_witness:
  "run (skip_list_new (0::int) example_draws) [Insert 3, Insert 1, Insert 2, Erase 3]
     = Some (the (run (skip_list_new (0::int) example_draws) [Insert 3, Insert 1, Insert 2, Erase 3])) \<and>
   level_chain (the (run (skip_list_new (0::int) example_draws)
     [Insert 3, Insert 1, Insert 2, Erase 3])) 0 = Some [2, 3] \<and>
   node_height (store (the (run (skip_list_new (0::int) example_draws)
     [Insert 3, Insert 1, Insert 2, Erase 3]))) 2 = 1 \<and>
   node_height (store (the (run (skip_list_new (0::int) example_draws)
     [Insert 3, Insert 1, Insert 2, Erase 3]))) 3 = 2 \<and>
   current_height (the (run (skip_list_new (0::int) example_draws)
     [Insert 3, Insert 1, Insert 2, Erase 3])) = 2 \<and>
   (2::nat) < MAX_HEIGHT \<and>
   fwd (store (the (run (skip_list_new (0::int) example_draws)
     [Insert 3, Insert 1, Insert 2, Erase 3])))
     (sentinel_head (the (run (skip_list_new (0::int) example_draws)
     [Insert 3, Insert 1, Insert 2, Erase 3]))) 2 = Some None"
proof -
  let ?r = "run (skip_list_new (0::int) example_draws) [Insert 3, Insert 1, Insert 2, Erase 3]"
  have "\<not> Option.is_none ?r" by code_simp
  then have r: "?r = Some (the ?r)" by (simp add: Option.is_none_def)
  have lc: "level_chain (the ?r) 0 = Some [2, 3]" by code_simp
  have nh: "node_height (store (the ?r)) 2 = 1" "node_height (store (the ?r)) 3 = 2"
    by code_simp+
  obtain s as where s: "?r = Some s" "level_chain s 0 = Some as"
      "current_height s = Max (insert 0 (node_height (store s) ` set as))"
      "\<forall>i<MAX_HEIGHT. (fwd (store s) (sentinel_head s) i = Some None) = (current_height s \<le> i)"
    using current_height_is_max[of 0 example_draws "[Insert 3, Insert 1, Insert 2, Erase 3]"]
    by blast
  have se: "s = the ?r" using s(1) by simp
  have ch: "current_height (the ?r) = 2" using s(2,3) lc nh unfolding se by simp
  have "fwd (store (the ?r)) (sentinel_head (the ?r)) 2 = Some None"
    using s(4) ch unfolding se by (simp add: MAX_HEIGHT_def)
  then show ?thesis using r lc nh ch by (simp add: MAX_HEIGHT_def)
qed

text \<open>
  C6.  In a reachable state whose \<open>empty()\<close> is true, \<open>erase(k)\<close> and \<open>contains(k)\<close>
  return false and change nothing, and \<open>begin()\<close> is the end position.  \<open>erase\<close>
  returns before it reads the store: its result is the same whatever the store holds.
\<close>

theorem empty_list_safe:
  fixes d :: "'k::linorder"
  assumes "run (skip_list_new d g) ops = Some s" and "empty_sl s"
  shows "erase s k = Some (False, s) \<and>
         erase (s\<lparr>store := st\<rparr>) k = Some (False, s\<lparr>store := st\<rparr>) \<and>
         contains s k = Some False \<and> begin_sl s = Some end_sl"
proof -
  obtain ns where inv: "inv s ns" using reachD[OF assms(1)] by blast
  have ns: "ns = []" using inv assms(2) by (rule inv_empty)
  have "erase s k = Some (False, s)" using assms(2) by (simp add: erase_def)
  moreover have "erase (s\<lparr>store := st\<rparr>) k = Some (False, s\<lparr>store := st\<rparr>)"
    using assms(2) by (simp add: erase_def empty_sl_def)
  moreover have "contains s k = Some False" using contains_spec[OF inv, of k] ns by simp
  moreover have "begin_sl s = Some end_sl" using begin_spec[OF inv] ns by (simp add: end_sl_def)
  ultimately show ?thesis by blast
qed

theorem empty_list_safe_witness:
  "run (skip_list_new (0::int) example_draws) [Insert 7, Erase 7]
     = Some (the (run (skip_list_new (0::int) example_draws) [Insert 7, Erase 7])) \<and>
   empty_sl (the (run (skip_list_new (0::int) example_draws) [Insert 7, Erase 7])) \<and>
   contains (the (run (skip_list_new (0::int) example_draws) [Insert 7, Erase 7])) 7 = Some False \<and>
   begin_sl (the (run (skip_list_new (0::int) example_draws) [Insert 7, Erase 7])) = Some end_sl"
proof -
  let ?r = "run (skip_list_new (0::int) example_draws) [Insert 7, Erase 7]"
  have "\<not> Option.is_none ?r" by code_simp
  then have r: "?r = Some (the ?r)" by (simp add: Option.is_none_def)
  have e: "empty_sl (the ?r)" by code_simp
  show ?thesis using r e empty_list_safe[OF r e, of 7] by simp
qed

text \<open>
  C7.  In every reachable state \<open>clear()\<close> returns, and afterwards \<open>size()\<close> is 0,
  \<open>empty()\<close> is true, \<open>begin()\<close> is the end position, the sentinel's 16 forward links
  are all null, \<open>current_height\<close> is 0, every real node has been released (the
  sentinel is the only live node), and no key is found by \<open>contains\<close> or \<open>find\<close>.
  The state may already be empty.
\<close>

theorem clear_resets:
  fixes d :: "'k::linorder"
  assumes "run (skip_list_new d g) ops = Some s"
  shows "\<exists>s' hd. clear s = Some s' \<and> size_sl s' = 0 \<and> empty_sl s' \<and>
           begin_sl s' = Some end_sl \<and> to_list s' = Some [] \<and>
           store s' (sentinel_head s') = Some hd \<and> forward hd = replicate MAX_HEIGHT None \<and>
           dom (store s') = {sentinel_head s'} \<and>
           current_height s' = 0 \<and>
           (\<forall>v. contains s' v = Some False \<and> find_sl s' v = Some end_sl)"
proof -
  obtain ns where inv: "inv s ns" using reachD[OF assms] by blast
  obtain s' where c: "clear s = Some s'" and inv': "inv s' []" using clear_spec[OF inv] by blast
  obtain d' where hd: "store s' (sentinel_head s') = Some (node_of d' MAX_HEIGHT [])"
    using inv' by (auto simp: inv_def)
  have "forward (node_of d' MAX_HEIGHT []) = replicate MAX_HEIGHT None"
    by (simp add: node_of_Nil SkipNode_new_def)
  moreover have "size_sl s' = 0" "empty_sl s'" "current_height s' = 0"
    "dom (store s') = {sentinel_head s'}"
    using inv' by (simp_all add: inv_def size_sl_def empty_sl_def)
  moreover have "begin_sl s' = Some end_sl" using begin_spec[OF inv'] by (simp add: end_sl_def)
  moreover have "to_list s' = Some []" using to_list_spec[OF inv'] by simp
  moreover have "\<forall>v. contains s' v = Some False \<and> find_sl s' v = Some end_sl"
    using contains_spec[OF inv'] find_spec[OF inv'] by simp
  ultimately show ?thesis using c hd by blast
qed

theorem clear_resets_witness:
  "run (skip_list_new (0::int) example_draws) [Insert 3, Insert 1, Insert 2]
     = Some (the (run (skip_list_new (0::int) example_draws) [Insert 3, Insert 1, Insert 2])) \<and>
   contains (the (run (skip_list_new (0::int) example_draws) [Insert 3, Insert 1, Insert 2])) 2
     = Some True \<and>
   contains (the (clear (the (run (skip_list_new (0::int) example_draws)
     [Insert 3, Insert 1, Insert 2])))) 2 = Some False \<and>
   size_sl (the (clear (the (run (skip_list_new (0::int) example_draws)
     [Insert 3, Insert 1, Insert 2])))) = 0"
proof -
  let ?r = "run (skip_list_new (0::int) example_draws) [Insert 3, Insert 1, Insert 2]"
  have "\<not> Option.is_none ?r" by code_simp
  then have r: "?r = Some (the ?r)" by (simp add: Option.is_none_def)
  have c: "contains (the ?r) 2 = Some True" by code_simp
  obtain s' where "clear (the ?r) = Some s'" "size_sl s' = 0"
      "\<forall>v. contains s' v = Some False \<and> find_sl s' v = Some end_sl"
    using clear_resets[OF r] by blast
  then show ?thesis using r c by simp
qed

text \<open>
  C8.  \<open>generateRandomHeight\<close> is a total function of the stream of draws; its result
  lies between 1 and \<open>MAX_HEIGHT = 16\<close>; with result \<open>h\<close>, the first \<open>h - 1\<close> draws
  were below the promotion probability 0.5, and the loop ended either because the
  height reached 16 or because draw number \<open>h\<close> was not below 0.5; exactly \<open>h\<close> draws
  were consumed.
\<close>

theorem generateRandomHeight_range:
  "1 \<le> fst (generateRandomHeight g) \<and> fst (generateRandomHeight g) \<le> MAX_HEIGHT \<and>
   MAX_HEIGHT = 16 \<and> promotion_probability = 1 / 2 \<and>
   (\<forall>j. Suc j < fst (generateRandomHeight g) \<longrightarrow> g j < promotion_probability) \<and>
   (fst (generateRandomHeight g) = MAX_HEIGHT \<or>
      \<not> g (fst (generateRandomHeight g) - 1) < promotion_probability) \<and>
   snd (generateRandomHeight g) = (\<lambda>n. g (n + fst (generateRandomHeight g)))"
proof -
  let ?h = "fst (generateRandomHeight g)"
  note b = generateRandomHeight_bounds[of g]
  note sp = height_loop_spec[of 1 g, folded generateRandomHeight_def]
  have "\<forall>j. Suc j < ?h \<longrightarrow> g j < promotion_probability" using sp by auto
  moreover have "?h = MAX_HEIGHT \<or> \<not> g (?h - 1) < promotion_probability" using sp b by auto
  moreover have "snd (generateRandomHeight g) = (\<lambda>n. g (n + ?h))"
  proof -
    have "\<And>n. Suc (n + (?h - 1)) = n + ?h" using b(1) by simp
    then show ?thesis using sp by simp
  qed
  ultimately show ?thesis using b by (simp add: MAX_HEIGHT_def promotion_probability_def)
qed

theorem generateRandomHeight_range_witness:
  "fst (generateRandomHeight example_draws) = 2 \<and>
   Suc 0 < fst (generateRandomHeight example_draws) \<and>
   example_draws 0 < promotion_probability \<and>
   \<not> example_draws (fst (generateRandomHeight example_draws) - 1) < promotion_probability"
proof -
  have h: "fst (generateRandomHeight example_draws) = 2" by code_simp
  have "Suc 0 < fst (generateRandomHeight example_draws) \<longrightarrow>
      example_draws 0 < promotion_probability"
    and "fst (generateRandomHeight example_draws) = MAX_HEIGHT \<or>
      \<not> example_draws (fst (generateRandomHeight example_draws) - 1) < promotion_probability"
    using generateRandomHeight_range[of example_draws] by blast+
  then show ?thesis using h by (simp add: MAX_HEIGHT_def)
qed

text \<open>
  C9.  In every state that a sequence of operations on a fresh container reaches,
  \<open>find(v)\<close> and \<open>contains(v)\<close> both return; \<open>contains(v)\<close> is true exactly when
  \<open>find(v)\<close> is not the end position, which is exactly when \<open>v\<close> is among the keys
  that iteration yields; and a position that is not the end dereferences to \<open>v\<close>.
\<close>

theorem find_agrees_with_contains:
  fixes d :: "'k::linorder"
  assumes "run (skip_list_new d g) ops = Some s"
  shows "\<exists>it ks. find_sl s v = Some it \<and> contains s v = Some (it \<noteq> end_sl) \<and>
           to_list s = Some ks \<and> (it \<noteq> end_sl) = (v \<in> set ks) \<and>
           (it = end_sl \<or> deref (store s) it = Some v)"
proof -
  obtain ns where inv: "inv s ns" using reachD[OF assms] by blast
  let ?it = "if v \<in> key_of ` set ns then nxt 0 (upper v ns) else end_sl"
  have "find_sl s v = Some ?it" by (rule find_spec[OF inv])
  moreover have "contains s v = Some (?it \<noteq> end_sl)"
    using contains_spec[OF inv, of v] found_deref[OF inv, of v] by simp
  moreover have "to_list s = Some (map key_of ns)" by (rule to_list_spec[OF inv])
  moreover have "(?it \<noteq> end_sl) = (v \<in> set (map key_of ns))"
    using found_deref[OF inv, of v] by simp
  moreover have "?it = end_sl \<or> deref (store s) ?it = Some v"
    using found_deref[OF inv, of v] by simp
  ultimately show ?thesis by blast
qed

theorem find_agrees_with_contains_witness:
  "run (skip_list_new (0::int) example_draws) [Insert 11, Insert 22, Insert 33]
     = Some (the (run (skip_list_new (0::int) example_draws) [Insert 11, Insert 22, Insert 33])) \<and>
   find_sl (the (run (skip_list_new (0::int) example_draws) [Insert 11, Insert 22, Insert 33])) 33
     = Some (Some 3) \<and>
   contains (the (run (skip_list_new (0::int) example_draws) [Insert 11, Insert 22, Insert 33])) 33
     = Some True \<and>
   find_sl (the (run (skip_list_new (0::int) example_draws) [Insert 11, Insert 22, Insert 33])) 99
     = Some end_sl"
proof -
  let ?r = "run (skip_list_new (0::int) example_draws) [Insert 11, Insert 22, Insert 33]"
  have "\<not> Option.is_none ?r" by code_simp
  then have r: "?r = Some (the ?r)" by (simp add: Option.is_none_def)
  have f: "find_sl (the ?r) 33 = Some (Some 3)" "find_sl (the ?r) 99 = Some end_sl"
    by code_simp+
  obtain it where "find_sl (the ?r) 33 = Some it" "contains (the ?r) 33 = Some (it \<noteq> end_sl)"
    using find_agrees_with_contains[OF r, of 33] by blast
  then have "contains (the ?r) 33 = Some True" using f by (simp add: end_sl_def)
  then show ?thesis using r f by simp
qed

text \<open>
  C10.  Advancing the end position is defined and yields the end position again, with
  the prefix and with the postfix operator, whatever the store holds (the postfix
  operator also returns the end position as its copy).  Dereferencing the end position
  is the undefined operation.
\<close>

theorem increment_end_is_end:
  "pre_incr st end_sl = Some end_sl \<and> post_incr st end_sl = Some (end_sl, end_sl) \<and>
   deref st end_sl = None"
  by (simp add: pre_incr_def post_incr_def deref_def end_sl_def)

end
